theory Spec2Isabelle
  imports Main "HOL-Library.Word" "HOL-Library.Sublist"
begin

section \<open>The byte-pair tokenizer of \<^verbatim>\<open>vbtokenizer/tokenizer.py\<close>\<close>

text \<open>
  Token IDs are Python integers (\<open>int\<close>), a token sequence is a list of them and a
  pair is a 2-tuple. The source's dictionaries keep insertion order, so they are
  association lists with distinct keys.
\<close>

type_synonym token = int
type_synonym pair = "token \<times> token"

subsection \<open>\<^verbatim>\<open>_merge_bytepairs\<close>\<close>

text \<open>
  The \<^verbatim>\<open>while i < len(tokens)\<close> loop of \<^verbatim>\<open>_merge_bytepairs\<close>, with the index \<open>i\<close>
  and the list \<open>new_tokens\<close> as loop state. The guard \<^verbatim>\<open>i < len(tokens) - 1\<close> is
  evaluated on Python integers, so it is written on \<open>int\<close>.
\<close>

function merge_loop :: "token list \<Rightarrow> pair \<Rightarrow> token \<Rightarrow> nat \<Rightarrow> token list \<Rightarrow> token list" where
  "merge_loop tokens pair index i new_tokens =
     (if i < length tokens then
        (if int i < int (length tokens) - 1
            \<and> tokens ! i = fst pair
            \<and> tokens ! (i + 1) = snd pair
         then merge_loop tokens pair index (i + 2) (new_tokens @ [index])
         else merge_loop tokens pair index (i + 1) (new_tokens @ [tokens ! i]))
      else new_tokens)"
  by pat_completeness auto
termination
  by (relation "measure (\<lambda>(tokens, pair, index, i, new_tokens). length tokens - i)") auto

declare merge_loop.simps [simp del]

definition merge_bytepairs :: "token list \<Rightarrow> pair \<Rightarrow> token \<Rightarrow> token list" where
  "merge_bytepairs tokens pair index = merge_loop tokens pair index 0 []"

text \<open>
  The specification's wording of the single-merge primitive: scan from the left; where
  the next two tokens are exactly \<open>(a, b)\<close> emit the replacement and advance by two,
  otherwise copy one token and advance by one.
\<close>

fun replace_pairs :: "token list \<Rightarrow> pair \<Rightarrow> token \<Rightarrow> token list" where
  "replace_pairs (x # y # ys) p r =
     (if x = fst p \<and> y = snd p then r # replace_pairs ys p r
      else x # replace_pairs (y # ys) p r)"
| "replace_pairs [x] p r = [x]"
| "replace_pairs [] p r = []"

subsection \<open>Python values: errors, dictionaries, text and bytes\<close>

text \<open>
  A \<^verbatim>\<open>bytes\<close> element is an 8-bit word. A \<^verbatim>\<open>str\<close> is a sequence of Unicode
  code points, so it is a list of naturals; only code points below \<open>0x110000\<close>
  exist in Python. Every exception the methods can raise is a value of \<open>error\<close>.
\<close>

type_synonym byte = "8 word"
type_synonym str = "nat list"

datatype error =
    KeyError token
  | ValueError string
  | UnicodeEncodeError
  | UnicodeDecodeError
  | FileNotFoundError
  | FileExistsError
  | NotADirectoryError
  | IsADirectoryError

text \<open>
  \<^verbatim>\<open>d[k] = v\<close> on an insertion-ordered dictionary: an existing key keeps its
  position and takes the new value, a new key is appended. \<^verbatim>\<open>d.get(k)\<close> is
  \<^const>\<open>map_of\<close>.
\<close>

fun dict_set :: "('k \<times> 'v) list \<Rightarrow> 'k \<Rightarrow> 'v \<Rightarrow> ('k \<times> 'v) list" where
  "dict_set [] k v = [(k, v)]"
| "dict_set ((k', v') # kvs) k v =
     (if k' = k then (k, v) # kvs else (k', v') # dict_set kvs k v)"

text \<open>
  \<^verbatim>\<open>str.encode("utf-8")\<close>: one to four bytes per code point; a surrogate
  (\<open>0xD800\<close> to \<open>0xDFFF\<close>) raises \<^verbatim>\<open>UnicodeEncodeError\<close>. A number from
  \<open>0x110000\<close> on is no character of a \<^verbatim>\<open>str\<close>; the model rejects it as well.
\<close>

definition utf8_encode_char :: "nat \<Rightarrow> error + byte list" where
  "utf8_encode_char c =
     (if c < 0x80 then Inr [of_nat c]
      else if c < 0x800 then
        Inr [of_nat (0xC0 + c div 0x40), of_nat (0x80 + c mod 0x40)]
      else if c < 0x10000 then
        (if 0xD800 \<le> c \<and> c < 0xE000 then Inl UnicodeEncodeError
         else Inr [of_nat (0xE0 + c div 0x1000), of_nat (0x80 + c div 0x40 mod 0x40),
                   of_nat (0x80 + c mod 0x40)])
      else if c < 0x110000 then
        Inr [of_nat (0xF0 + c div 0x40000), of_nat (0x80 + c div 0x1000 mod 0x40),
             of_nat (0x80 + c div 0x40 mod 0x40), of_nat (0x80 + c mod 0x40)]
      else Inl UnicodeEncodeError)"

fun utf8_encode :: "str \<Rightarrow> error + byte list" where
  "utf8_encode [] = Inr []"
| "utf8_encode (c # cs) =
     (case utf8_encode_char c of
        Inl e \<Rightarrow> Inl e
      | Inr bs \<Rightarrow> (case utf8_encode cs of Inl e \<Rightarrow> Inl e | Inr rest \<Rightarrow> Inr (bs @ rest)))"

text \<open>
  The UTF-8 decoder reads the bytes as numbers. \<open>utf8_scan\<close> yields, from left to
  right, \<open>Some c\<close> for each well-formed sequence and \<open>None\<close> for each ill-formed
  one, which is the longest prefix of a well-formed sequence found at that place (at
  least one byte), as CPython's decoder reports its errors. Overlong forms, surrogates
  and values above \<open>0x10FFFF\<close> are ill-formed: the second byte is checked against
  the range its lead byte allows.
\<close>

definition is_cont :: "nat \<Rightarrow> bool" where
  "is_cont b = (0x80 \<le> b \<and> b < 0xC0)"

definition second_ok :: "nat \<Rightarrow> nat \<Rightarrow> bool" where
  "second_ok b0 b1 =
     (is_cont b1
      \<and> (b0 = 0xE0 \<longrightarrow> 0xA0 \<le> b1) \<and> (b0 = 0xED \<longrightarrow> b1 < 0xA0)
      \<and> (b0 = 0xF0 \<longrightarrow> 0x90 \<le> b1) \<and> (b0 = 0xF4 \<longrightarrow> b1 < 0x90))"

fun utf8_scan :: "nat list \<Rightarrow> nat option list" where
  "utf8_scan [] = []"
| "utf8_scan (b0 # bs) =
     (if b0 < 0x80 then Some b0 # utf8_scan bs
      else if b0 < 0xC2 then None # utf8_scan bs
      else if b0 < 0xE0 then
        (case bs of
           [] \<Rightarrow> [None]
         | b1 # bs1 \<Rightarrow>
             if is_cont b1 then Some ((b0 - 0xC0) * 0x40 + (b1 - 0x80)) # utf8_scan bs1
             else None # utf8_scan bs)
      else if b0 < 0xF0 then
        (case bs of
           [] \<Rightarrow> [None]
         | b1 # bs1 \<Rightarrow>
             if \<not> second_ok b0 b1 then None # utf8_scan bs
             else (case bs1 of
                [] \<Rightarrow> [None]
              | b2 # bs2 \<Rightarrow>
                  if is_cont b2 then
                    Some ((b0 - 0xE0) * 0x1000 + (b1 - 0x80) * 0x40 + (b2 - 0x80))
                      # utf8_scan bs2
                  else None # utf8_scan bs1))
      else if b0 < 0xF5 then
        (case bs of
           [] \<Rightarrow> [None]
         | b1 # bs1 \<Rightarrow>
             if \<not> second_ok b0 b1 then None # utf8_scan bs
             else (case bs1 of
                [] \<Rightarrow> [None]
              | b2 # bs2 \<Rightarrow>
                  if \<not> is_cont b2 then None # utf8_scan bs1
                  else (case bs2 of
                     [] \<Rightarrow> [None]
                   | b3 # bs3 \<Rightarrow>
                       if is_cont b3 then
                         Some ((b0 - 0xF0) * 0x40000 + (b1 - 0x80) * 0x1000
                               + (b2 - 0x80) * 0x40 + (b3 - 0x80)) # utf8_scan bs3
                       else None # utf8_scan bs2)))
      else None # utf8_scan bs)"

text \<open>
  \<^verbatim>\<open>bytes.decode("utf-8", errors="replace")\<close> puts U+FFFD for each ill-formed
  sequence and cannot raise; \<^verbatim>\<open>bytes.decode("utf-8")\<close> raises
  \<^verbatim>\<open>UnicodeDecodeError\<close> at the first one.
\<close>

definition utf8_decode_replace :: "byte list \<Rightarrow> str" where
  "utf8_decode_replace bs =
     map (\<lambda>r. case r of None \<Rightarrow> 0xFFFD | Some c \<Rightarrow> c) (utf8_scan (map unat bs))"

definition utf8_decode_strict :: "byte list \<Rightarrow> error + str" where
  "utf8_decode_strict bs =
     (let rs = utf8_scan (map unat bs)
      in if None \<in> set rs then Inl UnicodeDecodeError else Inr (map the rs))"

text \<open>
  What the lossy decoding has to give is stated without the scanner, from the encoder
  alone. A byte sequence \<open>e\<close> encodes the character \<open>c\<close> when
  \<^verbatim>\<open>chr(c).encode("utf-8")\<close> is \<open>e\<close>; a sequence is truncated when it is a proper
  beginning of the encoding of some character. \<open>lossy_utf8 bs s\<close> says that \<open>s\<close> is
  \<open>bs\<close> read from left to right, where the encoding of a character gives that
  character, and where the bytes at a place at which no encoding begins give one U+FFFD
  for the longest truncated sequence found there, or for one byte when there is none
  (the maximal subpart of the Unicode standard, which CPython replaces as a unit).
\<close>

definition encodes :: "nat \<Rightarrow> byte list \<Rightarrow> bool" where
  "encodes c e = (utf8_encode_char c = Inr e)"

definition begins_char :: "byte list \<Rightarrow> bool" where
  "begins_char bs = (\<exists>c e. encodes c e \<and> prefix e bs)"

definition truncated :: "byte list \<Rightarrow> bool" where
  "truncated m = (\<exists>c e. encodes c e \<and> strict_prefix m e)"

inductive lossy_utf8 :: "byte list \<Rightarrow> str \<Rightarrow> bool" where
  empty: "lossy_utf8 [] []"
| char: "encodes c e \<Longrightarrow> lossy_utf8 rest s \<Longrightarrow> lossy_utf8 (e @ rest) (c # s)"
| ill_formed:
    "m \<noteq> [] \<Longrightarrow> \<not> begins_char (m @ rest) \<Longrightarrow> length m = 1 \<or> truncated m \<Longrightarrow>
     \<not> (\<exists>b rest'. rest = b # rest' \<and> truncated (m @ [b])) \<Longrightarrow>
     lossy_utf8 rest s \<Longrightarrow> lossy_utf8 (m @ rest) (0xFFFD # s)"

subsection \<open>The tokenizer object\<close>

type_synonym merges = "(pair \<times> token) list"
type_synonym specials = "(str \<times> token) list"
type_synonym vocab = "token \<Rightarrow> byte list option"

record tokenizer =
  merges :: merges
  special_tokens :: specials
  vocab :: vocab

text \<open>
  A method that mutates the object returns how it ended together with the object as it
  left it, so that the state after a raised exception is part of the model.
\<close>

datatype outcome = Returned | Raised error

subsection \<open>\<^verbatim>\<open>_build_vocab\<close>\<close>

text \<open>The comprehension \<^verbatim>\<open>{idx: bytes([idx]) for idx in range(256)}\<close>.\<close>

definition byte_vocab :: vocab where
  "byte_vocab = (\<lambda>idx. if 0 \<le> idx \<and> idx < 256 then Some [word_of_int idx] else None)"

text \<open>
  The loop over \<^verbatim>\<open>self.merges.items()\<close>: \<^verbatim>\<open>vocab[p0] + vocab[p1]\<close> raises
  \<^verbatim>\<open>KeyError\<close> for the first of the two IDs that is absent.
\<close>

fun build_merges :: "merges \<Rightarrow> vocab \<Rightarrow> error + vocab" where
  "build_merges [] voc = Inr voc"
| "build_merges (((p0, p1), idx) # rest) voc =
     (case voc p0 of
        None \<Rightarrow> Inl (KeyError p0)
      | Some b0 \<Rightarrow>
          (case voc p1 of
             None \<Rightarrow> Inl (KeyError p1)
           | Some b1 \<Rightarrow> build_merges rest (voc(idx \<mapsto> b0 @ b1))))"

fun build_specials :: "specials \<Rightarrow> vocab \<Rightarrow> error + vocab" where
  "build_specials [] voc = Inr voc"
| "build_specials ((special_token, idx) # rest) voc =
     (case utf8_encode special_token of
        Inl e \<Rightarrow> Inl e
      | Inr bs \<Rightarrow> build_specials rest (voc(idx \<mapsto> bs)))"

definition build_vocab :: "merges \<Rightarrow> specials \<Rightarrow> error + vocab" where
  "build_vocab ms sts =
     (case build_merges ms byte_vocab of
        Inl e \<Rightarrow> Inl e
      | Inr voc \<Rightarrow> build_specials sts voc)"

text \<open>
  \<^verbatim>\<open>__init__\<close>: both dictionaries empty; \<^verbatim>\<open>_build_vocab\<close> then runs neither loop
  and returns the 256 single-byte entries.
\<close>

definition init :: tokenizer where
  "init = \<lparr>merges = [], special_tokens = [], vocab = byte_vocab\<rparr>"

subsection \<open>\<^verbatim>\<open>_count_combinations\<close> and \<^verbatim>\<open>train\<close>\<close>

fun count_loop :: "pair list \<Rightarrow> (pair \<times> int) list \<Rightarrow> (pair \<times> int) list" where
  "count_loop [] counts = counts"
| "count_loop (p # ps) counts =
     count_loop ps
       (dict_set counts p ((case map_of counts p of None \<Rightarrow> 0 | Some c \<Rightarrow> c) + 1))"

text \<open>
  \<^verbatim>\<open>sorted\<close> is stable, and so is \<^const>\<open>sort_key\<close>; a stable sort by a key has
  one result only.
\<close>

definition count_combinations :: "token list \<Rightarrow> (pair \<times> int) list" where
  "count_combinations tokens =
     sort_key (\<lambda>x. - snd x) (count_loop (zip tokens (drop 1 tokens)) [])"

text \<open>
  \<^verbatim>\<open>max(combinations, key=combinations.get)\<close> runs over the keys in the
  dictionary's order and keeps the first one whose count no later one exceeds; on an
  empty dictionary it raises \<^verbatim>\<open>ValueError\<close>. Each key's \<^verbatim>\<open>get\<close> is the count
  stored with it, so the scan runs over the items.
\<close>

fun max_loop :: "(pair \<times> int) list \<Rightarrow> pair \<times> int \<Rightarrow> pair \<times> int" where
  "max_loop [] best = best"
| "max_loop (x # xs) best = max_loop xs (if snd x > snd best then x else best)"

definition max_by_count :: "(pair \<times> int) list \<Rightarrow> error + pair" where
  "max_by_count combinations =
     (case combinations of
        [] \<Rightarrow> Inl (ValueError ''max() arg is an empty sequence'')
      | x # xs \<Rightarrow> Inr (fst (max_loop xs x)))"

text \<open>
  The \<^verbatim>\<open>for i in range(vocab_size - 256)\<close> loop of \<^verbatim>\<open>train\<close>: \<open>n\<close> rounds are
  left, \<open>i\<close> is the loop variable. It returns the exception or the final working token
  sequence, and \<^verbatim>\<open>self.merges\<close> as the loop left it.
\<close>

fun train_loop :: "nat \<Rightarrow> int \<Rightarrow> token list \<Rightarrow> merges \<Rightarrow> (error + token list) \<times> merges" where
  "train_loop 0 i tokens ms = (Inr tokens, ms)"
| "train_loop (Suc n) i tokens ms =
     (case max_by_count (count_combinations tokens) of
        Inl e \<Rightarrow> (Inl e, ms)
      | Inr top_pair \<Rightarrow>
          (let idx = 256 + i;
               tokens' = merge_bytepairs tokens top_pair idx
           in train_loop n (i + 1) tokens' (dict_set ms top_pair idx)))"

definition train :: "tokenizer \<Rightarrow> str \<Rightarrow> int \<Rightarrow> outcome \<times> tokenizer" where
  "train self corpus vocab_size =
     (case utf8_encode corpus of
        Inl e \<Rightarrow> (Raised e, self)
      | Inr bs \<Rightarrow>
          (case train_loop (nat (vocab_size - 256)) 0 (map uint bs) [] of
             (Inl e, ms) \<Rightarrow> (Raised e, self\<lparr>merges := ms\<rparr>)
           | (Inr tokens, ms) \<Rightarrow>
               (case build_vocab ms (special_tokens self) of
                  Inl e \<Rightarrow> (Raised e, self\<lparr>merges := ms\<rparr>)
                | Inr v \<Rightarrow> (Returned, self\<lparr>merges := ms, vocab := v\<rparr>))))"

subsection \<open>\<^verbatim>\<open>encode\<close> and \<^verbatim>\<open>decode\<close>\<close>

fun encode_loop :: "merges \<Rightarrow> token list \<Rightarrow> token list" where
  "encode_loop [] tokens = tokens"
| "encode_loop (((token_1, token_2), value) # rest) tokens =
     encode_loop rest (merge_bytepairs tokens (token_1, token_2) value)"

definition encode :: "tokenizer \<Rightarrow> str \<Rightarrow> error + token list" where
  "encode self input =
     (case utf8_encode input of
        Inl e \<Rightarrow> Inl e
      | Inr bs \<Rightarrow> Inr (encode_loop (merges self) (map uint bs)))"

text \<open>
  \<^verbatim>\<open>b"".join(self.vocab[idx] for idx in tokenized_input)\<close>: the first ID absent
  from the vocabulary raises \<^verbatim>\<open>KeyError\<close>.
\<close>

fun join_vocab :: "vocab \<Rightarrow> token list \<Rightarrow> error + byte list" where
  "join_vocab voc [] = Inr []"
| "join_vocab voc (idx # rest) =
     (case voc idx of
        None \<Rightarrow> Inl (KeyError idx)
      | Some bs \<Rightarrow>
          (case join_vocab voc rest of Inl e \<Rightarrow> Inl e | Inr r \<Rightarrow> Inr (bs @ r)))"

definition decode :: "tokenizer \<Rightarrow> token list \<Rightarrow> error + str" where
  "decode self tokenized_input =
     (case join_vocab (vocab self) tokenized_input of
        Inl e \<Rightarrow> Inl e
      | Inr tokens \<Rightarrow> Inr (utf8_decode_replace tokens))"

subsection \<open>\<^verbatim>\<open>add_special_token\<close>\<close>

text \<open>
  \<^verbatim>\<open>msg.fail\<close> prints a notice and returns; the notices a call prints are returned
  next to the object. The method assigns to \<^verbatim>\<open>self.special_tokens\<close> and to nothing
  else.
\<close>

datatype notice = Fail_before_training | Fail_already_exists str

definition add_special_token :: "tokenizer \<Rightarrow> str \<Rightarrow> notice list \<times> tokenizer" where
  "add_special_token self special_str =
     (if length (merges self) = 0 then ([Fail_before_training], self)
      else if map_of (special_tokens self) special_str \<noteq> None then
        ([Fail_already_exists special_str], self)
      else
        ([], self\<lparr>special_tokens :=
               dict_set (special_tokens self) special_str
                 (256 + int (length (merges self)) + int (length (special_tokens self)))\<rparr>))"

subsection \<open>The Python runtime and the file system\<close>

text \<open>
  What \<^verbatim>\<open>save\<close> and \<^verbatim>\<open>load\<close> take from the platform is a parameter of the model:
  the default text encoding, which \<^verbatim>\<open>open(path, "w")\<close> uses (\<open>default_encode rt t\<close> is
  the bytes that its encoder gives for the text \<open>t\<close> written from the start of a file,
  or the error it raises), the line separator \<^verbatim>\<open>os.linesep\<close> that a text file puts for
  \<open>"\n"\<close> when written, the decimal value that the Unicode database gives to a
  character beyond ASCII (\<open>None\<close> when it is no decimal digit), and the limit on the
  number of digits that \<^verbatim>\<open>int\<close> and \<^verbatim>\<open>str\<close> convert
  (\<^verbatim>\<open>sys.get_int_max_str_digits()\<close>, 0 for none).
\<close>

record runtime =
  default_encode :: "str \<Rightarrow> error + byte list"
  linesep :: str
  decimal :: "nat \<Rightarrow> nat option"
  max_str_digits :: nat

text \<open>
  A path is the list of its parts below the working directory, which is \<open>[]\<close>. The
  file system maps a path to what is there. Permissions and failures of the device are
  outside the model: a call fails only for what is or is not at a path.
\<close>

datatype node = Directory | File "byte list"

type_synonym path = "string list"
type_synonym filesystem = "path \<Rightarrow> node option"

text \<open>
  \<^verbatim>\<open>Path.mkdir()\<close> with its defaults: the parent has to be a directory, and is not
  created.
\<close>

definition mkdir :: "filesystem \<Rightarrow> path \<Rightarrow> error + filesystem" where
  "mkdir fs p =
     (if fs p \<noteq> None then Inl FileExistsError
      else case fs (butlast p) of
             None \<Rightarrow> Inl FileNotFoundError
           | Some (File bs) \<Rightarrow> Inl NotADirectoryError
           | Some Directory \<Rightarrow> Inr (fs(p \<mapsto> Directory)))"

text \<open>
  \<^verbatim>\<open>open(dir / name, "w")\<close> creates the file or empties it;
  \<^verbatim>\<open>open(dir / name, "r")\<close> gives its bytes.
\<close>

definition open_write :: "filesystem \<Rightarrow> path \<Rightarrow> string \<Rightarrow> error + filesystem" where
  "open_write fs dir name =
     (case fs dir of
        None \<Rightarrow> Inl FileNotFoundError
      | Some (File bs) \<Rightarrow> Inl NotADirectoryError
      | Some Directory \<Rightarrow>
          (case fs (dir @ [name]) of
             Some Directory \<Rightarrow> Inl IsADirectoryError
           | _ \<Rightarrow> Inr (fs(dir @ [name] \<mapsto> File []))))"

definition open_read :: "filesystem \<Rightarrow> path \<Rightarrow> string \<Rightarrow> error + byte list" where
  "open_read fs dir name =
     (case fs dir of
        None \<Rightarrow> Inl FileNotFoundError
      | Some (File bs) \<Rightarrow> Inl NotADirectoryError
      | Some Directory \<Rightarrow>
          (case fs (dir @ [name]) of
             None \<Rightarrow> Inl FileNotFoundError
           | Some Directory \<Rightarrow> Inl IsADirectoryError
           | Some (File bs) \<Rightarrow> Inr bs))"

text \<open>
  A text file open for writing is the text \<open>written\<close> to it so far. One
  \<^verbatim>\<open>write\<close> call turns every \<open>"\n"\<close> of its string into the line separator and
  encodes; a string that cannot be encoded raises, and the file keeps what was written
  before. Closing the file leaves the encoded text as its content, and no byte when
  nothing was written.
\<close>

definition translate_newlines :: "str \<Rightarrow> str \<Rightarrow> str" where
  "translate_newlines sep s = concat (map (\<lambda>c. if c = 10 then sep else [c]) s)"

definition file_write :: "runtime \<Rightarrow> str \<Rightarrow> str \<Rightarrow> error + str" where
  "file_write rt written s =
     (let t = written @ translate_newlines (linesep rt) s
      in case default_encode rt t of Inl e \<Rightarrow> Inl e | Inr bs \<Rightarrow> Inr t)"

definition file_close :: "runtime \<Rightarrow> str \<Rightarrow> byte list" where
  "file_close rt written =
     (if written = [] then []
      else case default_encode rt written of Inl e \<Rightarrow> [] | Inr bs \<Rightarrow> bs)"

text \<open>
  \<^verbatim>\<open>file.read()\<close> of a file opened with \<^verbatim>\<open>open(path, "r", encoding="utf-8")\<close>:
  bytes that are not UTF-8 raise \<^verbatim>\<open>UnicodeDecodeError\<close>, and the default newline mode
  turns \<open>"\r\n"\<close> and \<open>"\r"\<close> into \<open>"\n"\<close>.
\<close>

fun newline_loop :: "bool \<Rightarrow> str \<Rightarrow> str" where
  "newline_loop after_cr [] = []"
| "newline_loop after_cr (c # cs) =
     (if c = 13 then 10 # newline_loop True cs
      else if c = 10 \<and> after_cr then newline_loop False cs
      else c # newline_loop False cs)"

definition universal_newlines :: "str \<Rightarrow> str" where
  "universal_newlines s = newline_loop False s"

definition read_text :: "filesystem \<Rightarrow> path \<Rightarrow> string \<Rightarrow> error + str" where
  "read_text fs dir name =
     (case open_read fs dir name of
        Inl e \<Rightarrow> Inl e
      | Inr bs \<Rightarrow>
          (case utf8_decode_strict bs of
             Inl e \<Rightarrow> Inl e
           | Inr s \<Rightarrow> Inr (universal_newlines s)))"

subsection \<open>Lines and numbers\<close>

text \<open>
  \<^verbatim>\<open>s.split(sep)\<close> for a separator of one character: the pieces between the
  separators, empty pieces included; \<open>cur\<close> is the piece being read.
\<close>

fun split_loop :: "nat \<Rightarrow> str \<Rightarrow> str \<Rightarrow> str list" where
  "split_loop sep cur [] = [cur]"
| "split_loop sep cur (c # cs) =
     (if c = sep then cur # split_loop sep [] cs else split_loop sep (cur @ [c]) cs)"

definition py_split :: "nat \<Rightarrow> str \<Rightarrow> str list" where
  "py_split sep s = split_loop sep [] s"

text \<open>
  \<^verbatim>\<open>f"{idx}"\<close> of an integer: its decimal digits, after a minus sign when negative;
  \<^verbatim>\<open>ValueError\<close> when there are more digits than the limit. CPython compares with
  the limit only above 640 digits, the least limit that can be set.
\<close>

fun show_nat :: "nat \<Rightarrow> str" where
  "show_nat n = (if n < 10 then [48 + n] else show_nat (n div 10) @ [48 + n mod 10])"

declare show_nat.simps [simp del]

definition show_int :: "int \<Rightarrow> str" where
  "show_int i = (if i < 0 then 45 # show_nat (nat (- i)) else show_nat (nat i))"

definition over_limit :: "runtime \<Rightarrow> nat \<Rightarrow> bool" where
  "over_limit rt digits =
     (640 < digits \<and> 0 < max_str_digits rt \<and> max_str_digits rt < digits)"

definition format_int :: "runtime \<Rightarrow> int \<Rightarrow> error + str" where
  "format_int rt i =
     (if over_limit rt (length (show_nat (nat \<bar>i\<bar>)))
      then Inl (ValueError ''Exceeds the limit for integer string conversion'')
      else Inr (show_int i))"

text \<open>
  \<^verbatim>\<open>int(s)\<close> of a string. White space at both ends is dropped: the ASCII characters
  9 to 13 and 32 (not 28 to 31, which \<^verbatim>\<open>str.strip\<close> drops and \<^verbatim>\<open>int\<close> does not),
  and the white space beyond ASCII. Then an optional sign and the digits follow, where
  single underscores may stand between digits; a digit is \<open>0\<close> to \<open>9\<close> or a decimal
  digit beyond ASCII with the value the Unicode database gives it. Anything else, and
  more digits than the limit (leading zeros count, underscores and the sign do not),
  raise \<^verbatim>\<open>ValueError\<close>.
\<close>

definition is_space :: "nat \<Rightarrow> bool" where
  "is_space c =
     ((9 \<le> c \<and> c \<le> 13) \<or> c = 32 \<or> c = 0x85 \<or> c = 0xA0 \<or> c = 0x1680
      \<or> (0x2000 \<le> c \<and> c \<le> 0x200A) \<or> c = 0x2028 \<or> c = 0x2029 \<or> c = 0x202F
      \<or> c = 0x205F \<or> c = 0x3000)"

definition strip :: "str \<Rightarrow> str" where
  "strip s = rev (dropWhile is_space (rev (dropWhile is_space s)))"

definition digit_value :: "runtime \<Rightarrow> nat \<Rightarrow> nat option" where
  "digit_value rt c =
     (if 48 \<le> c \<and> c \<le> 57 then Some (c - 48)
      else if c < 128 \<or> is_space c then None
      else decimal rt c)"

text \<open>
  The digits of \<open>cs\<close>, read from the left: \<open>acc\<close> is the value and \<open>count\<close> the
  number of the digits read, \<open>after_digit\<close> says that the last character was a digit.
\<close>

fun parse_digits :: "runtime \<Rightarrow> bool \<Rightarrow> nat \<Rightarrow> nat \<Rightarrow> str \<Rightarrow> (nat \<times> nat) option" where
  "parse_digits rt after_digit acc count [] = (if after_digit then Some (acc, count) else None)"
| "parse_digits rt after_digit acc count (c # cs) =
     (case digit_value rt c of
        Some d \<Rightarrow> parse_digits rt True (acc * 10 + d) (count + 1) cs
      | None \<Rightarrow> if c = 95 \<and> after_digit then parse_digits rt False acc count cs else None)"

definition py_int :: "runtime \<Rightarrow> str \<Rightarrow> error + int" where
  "py_int rt s =
     (let t = strip s;
          (negative, ds) =
            (case t of
               [] \<Rightarrow> (False, [])
             | c # cs \<Rightarrow> if c = 45 then (True, cs) else if c = 43 then (False, cs) else (False, t))
      in case parse_digits rt False 0 0 ds of
           None \<Rightarrow> Inl (ValueError ''invalid literal for int() with base 10'')
         | Some (n, count) \<Rightarrow>
             if over_limit rt count
             then Inl (ValueError ''Exceeds the limit for integer string conversion'')
             else Inr (if negative then - int n else int n))"

subsection \<open>\<^verbatim>\<open>save\<close> and \<^verbatim>\<open>load\<close>\<close>

definition merges_file :: string where
  "merges_file = ''tokenizer_merges.vm''"

definition special_file :: string where
  "special_file = ''tokenizer_special.vm''"

text \<open>
  The two writing loops of \<^verbatim>\<open>save\<close>, over the keys of the dictionaries: \<open>written\<close>
  is the text written to the open file. The f-string of a merge is formatted before it
  is written.
\<close>

fun write_merges :: "runtime \<Rightarrow> pair list \<Rightarrow> str \<Rightarrow> outcome \<times> str" where
  "write_merges rt [] written = (Returned, written)"
| "write_merges rt ((idx1, idx2) # rest) written =
     (case format_int rt idx1 of
        Inl e \<Rightarrow> (Raised e, written)
      | Inr s1 \<Rightarrow>
          (case format_int rt idx2 of
             Inl e \<Rightarrow> (Raised e, written)
           | Inr s2 \<Rightarrow>
               (case file_write rt written (s1 @ [32] @ s2 @ [10]) of
                  Inl e \<Rightarrow> (Raised e, written)
                | Inr written' \<Rightarrow> write_merges rt rest written')))"

fun write_specials :: "runtime \<Rightarrow> str list \<Rightarrow> str \<Rightarrow> outcome \<times> str" where
  "write_specials rt [] written = (Returned, written)"
| "write_specials rt (special_token # rest) written =
     (case file_write rt written (special_token @ [10]) of
        Inl e \<Rightarrow> (Raised e, written)
      | Inr written' \<Rightarrow> write_specials rt rest written')"

text \<open>
  \<^verbatim>\<open>save\<close> changes the file system only. The folder is made when nothing is at its
  path; each file is opened, which empties it, written, and closed with what was
  written, also when a \<^verbatim>\<open>write\<close> raised; the second file is opened after the first
  one was closed.
\<close>

definition save :: "runtime \<Rightarrow> tokenizer \<Rightarrow> filesystem \<Rightarrow> path \<Rightarrow> outcome \<times> filesystem" where
  "save rt self fs save_path =
     (case (if fs save_path = None then mkdir fs save_path else Inr fs) of
        Inl e \<Rightarrow> (Raised e, fs)
      | Inr fs1 \<Rightarrow>
          (case open_write fs1 save_path merges_file of
             Inl e \<Rightarrow> (Raised e, fs1)
           | Inr fs2 \<Rightarrow>
               (case write_merges rt (map fst (merges self)) [] of
                  (Raised e, written) \<Rightarrow>
                    (Raised e, fs2(save_path @ [merges_file] \<mapsto> File (file_close rt written)))
                | (Returned, written) \<Rightarrow>
                    (let fs3 = fs2(save_path @ [merges_file] \<mapsto> File (file_close rt written))
                     in case open_write fs3 save_path special_file of
                          Inl e \<Rightarrow> (Raised e, fs3)
                        | Inr fs4 \<Rightarrow>
                            (case write_specials rt (map fst (special_tokens self)) [] of
                               (r, written') \<Rightarrow>
                                 (r, fs4(save_path @ [special_file]
                                          \<mapsto> File (file_close rt written'))))))))"

text \<open>
  One row of the merges file: \<^verbatim>\<open>idx1, idx2 = row.split(" ")\<close> raises
  \<^verbatim>\<open>ValueError\<close> unless there are exactly two pieces, then \<^verbatim>\<open>int\<close> reads each.
\<close>

definition parse_row :: "runtime \<Rightarrow> str \<Rightarrow> error + pair" where
  "parse_row rt row =
     (case py_split 32 row of
        [s1, s2] \<Rightarrow>
          (case py_int rt s1 of
             Inl e \<Rightarrow> Inl e
           | Inr idx1 \<Rightarrow> (case py_int rt s2 of Inl e \<Rightarrow> Inl e | Inr idx2 \<Rightarrow> Inr (idx1, idx2)))
      | _ \<Rightarrow> Inl (ValueError ''wrong number of values to unpack''))"

text \<open>
  The two \<^verbatim>\<open>for i, ... in enumerate(...)\<close> loops of \<^verbatim>\<open>load\<close>. The first assigns
  into \<^verbatim>\<open>self.merges\<close> row by row, so a row that raises leaves the rows before it
  assigned.
\<close>

fun load_merges :: "runtime \<Rightarrow> str list \<Rightarrow> int \<Rightarrow> merges \<Rightarrow> outcome \<times> merges" where
  "load_merges rt [] i ms = (Returned, ms)"
| "load_merges rt (row # rows) i ms =
     (case parse_row rt row of
        Inl e \<Rightarrow> (Raised e, ms)
      | Inr (idx1, idx2) \<Rightarrow> load_merges rt rows (i + 1) (dict_set ms (idx1, idx2) (i + 256)))"

fun load_specials :: "str list \<Rightarrow> int \<Rightarrow> int \<Rightarrow> specials \<Rightarrow> specials" where
  "load_specials [] i merges_length sts = sts"
| "load_specials (special_token # rest) i merges_length sts =
     load_specials rest (i + 1) merges_length
       (dict_set sts special_token (i + 256 + merges_length))"

definition load :: "runtime \<Rightarrow> tokenizer \<Rightarrow> filesystem \<Rightarrow> path \<Rightarrow> outcome \<times> tokenizer" where
  "load rt self fs save_path =
     (case fs save_path of
        None \<Rightarrow> (Raised (ValueError ''The folder that you provided does not exist''), self)
      | Some at_path \<Rightarrow>
          (case read_text fs save_path merges_file of
             Inl e \<Rightarrow> (Raised e, self)
           | Inr merges_text \<Rightarrow>
               (case load_merges rt (butlast (py_split 10 merges_text)) 0 (merges self) of
                  (Raised e, ms) \<Rightarrow> (Raised e, self\<lparr>merges := ms\<rparr>)
                | (Returned, ms) \<Rightarrow>
                    (let merges_length = int (length ms)
                     in case read_text fs save_path special_file of
                          Inl e \<Rightarrow> (Raised e, self\<lparr>merges := ms\<rparr>)
                        | Inr special_text \<Rightarrow>
                            (let sts = load_specials (butlast (py_split 10 special_text)) 0
                                         merges_length (special_tokens self)
                             in case build_vocab ms sts of
                                  Inl e \<Rightarrow>
                                    (Raised e, self\<lparr>merges := ms, special_tokens := sts\<rparr>)
                                | Inr v \<Rightarrow>
                                    (Returned,
                                     self\<lparr>merges := ms, special_tokens := sts,
                                          vocab := v\<rparr>))))))"

text \<open>
  A runtime for the concrete runs below: UTF-8 as default encoding, \<open>"\n"\<close> as line
  separator, the Arabic-Indic digits as the decimal digits beyond ASCII, and the limit
  of 4300 digits.
\<close>

definition posix :: runtime where
  "posix = \<lparr>default_encode = utf8_encode, linesep = [10],
            decimal = (\<lambda>c. if 0x660 \<le> c \<and> c \<le> 0x669 then Some (c - 0x660) else None),
            max_str_digits = 4300\<rparr>"

text \<open>
  A second runtime: an encoding that has the ASCII characters only, \<open>"\r\n"\<close> as line
  separator, no decimal digits beyond ASCII and no limit on the digits.
\<close>

definition crlf_ascii :: runtime where
  "crlf_ascii = \<lparr>default_encode =
                    (\<lambda>t. if \<forall>c \<in> set t. c < 0x80 then Inr (map of_nat t)
                         else Inl UnicodeEncodeError),
                 linesep = [13, 10], decimal = (\<lambda>c. None), max_str_digits = 0\<rparr>"

subsection \<open>Notions used in the proofs\<close>

text \<open>The adjacent pairs of a sequence, \<^verbatim>\<open>zip(tokens, tokens[1:])\<close>.\<close>

definition adj :: "token list \<Rightarrow> pair list" where
  "adj xs = zip xs (drop 1 xs)"

text \<open>
  The final value of the local variable \<^verbatim>\<open>tokens\<close> of \<^verbatim>\<open>train\<close>: the working
  sequence when the loop ends.
\<close>

definition train_tokens :: "str \<Rightarrow> int \<Rightarrow> error + token list" where
  "train_tokens corpus vocab_size =
     (case utf8_encode corpus of
        Inl e \<Rightarrow> Inl e
      | Inr bs \<Rightarrow> fst (train_loop (nat (vocab_size - 256)) 0 (map uint bs) []))"

text \<open>
  The invariant of the loop of \<^verbatim>\<open>train\<close> before round \<open>i\<close>, for a corpus whose bytes
  are \<open>start\<close>: the tokens are below \<open>256 + i\<close>, the recorded IDs are
  \<open>256, 257, ...\<close> in order, a recorded pair consists of smaller IDs and does not
  occur in the working sequence any more, and replaying the recorded rules on the corpus
  gives the working sequence.
\<close>

definition train_inv :: "token list \<Rightarrow> int \<Rightarrow> token list \<Rightarrow> merges \<Rightarrow> bool" where
  "train_inv start i tokens ms \<longleftrightarrow>
     0 \<le> i
     \<and> (\<forall>t \<in> set tokens. 0 \<le> t \<and> t < 256 + i)
     \<and> map snd ms = map (\<lambda>k. 256 + int k) [0..<nat i]
     \<and> (\<forall>((a, b), v) \<in> set ms. 0 \<le> a \<and> a < v \<and> 0 \<le> b \<and> b < v \<and> (a, b) \<notin> set (adj tokens))
     \<and> encode_loop ms start = tokens"

text \<open>
  The complete lines of a file of a folder, as \<^verbatim>\<open>load\<close> reads them (none when the
  file cannot be read), and the pairs that the rows of the merges file denote.
\<close>

definition file_rows :: "filesystem \<Rightarrow> path \<Rightarrow> string \<Rightarrow> str list" where
  "file_rows fs save_path name =
     (case read_text fs save_path name of Inl e \<Rightarrow> [] | Inr t \<Rightarrow> butlast (py_split 10 t))"

definition file_pairs :: "runtime \<Rightarrow> filesystem \<Rightarrow> path \<Rightarrow> pair list" where
  "file_pairs rt fs save_path =
     concat (map (\<lambda>row. case parse_row rt row of Inl e \<Rightarrow> [] | Inr p \<Rightarrow> [p])
       (file_rows fs save_path merges_file))"

text \<open>
  The first step of the scanner on \<open>bs\<close>: it reads the encoding of a character, or it
  reports a maximal subpart.
\<close>

definition step_char :: "byte list \<Rightarrow> bool" where
  "step_char bs =
     (\<exists>c e rest. encodes c e \<and> bs = e @ rest
        \<and> utf8_scan (map unat bs) = Some c # utf8_scan (map unat rest))"

definition step_bad :: "byte list \<Rightarrow> bool" where
  "step_bad bs =
     (\<exists>m rest. bs = m @ rest \<and> m \<noteq> [] \<and> (length m = 1 \<or> truncated m)
        \<and> \<not> (\<exists>b rest'. rest = b # rest' \<and> truncated (m @ [b]))
        \<and> utf8_scan (map unat bs) = None # utf8_scan (map unat rest))"

section \<open>Properties\<close>

subsection \<open>The single-merge primitive\<close>

lemma merge_loop_drop:
  "i \<le> length tokens \<Longrightarrow>
   merge_loop tokens p r i acc = acc @ replace_pairs (drop i tokens) p r"
proof (induction tokens p r i acc rule: merge_loop.induct)
  case (1 tokens p r i acc)
  show ?case
  proof (cases "i < length tokens")
    case False
    with "1.prems" show ?thesis
      by (subst merge_loop.simps) simp
  next
    case inb: True
    show ?thesis
    proof (cases "Suc i < length tokens")
      case False
      with inb have d: "drop i tokens = [tokens ! i]"
        by (metis Cons_nth_drop_Suc drop_all not_less)
      have "merge_loop tokens p r (i + 1) (acc @ [tokens ! i])
              = (acc @ [tokens ! i]) @ replace_pairs (drop (i + 1) tokens) p r"
        using "1.IH"(2) inb False by simp
      with inb False d show ?thesis
        by (subst merge_loop.simps) simp
    next
      case True
      then have d: "drop i tokens = tokens ! i # tokens ! Suc i # drop (i + 2) tokens"
        by (metis Cons_nth_drop_Suc Suc_lessD add_2_eq_Suc')
      show ?thesis
      proof (cases "tokens ! i = fst p \<and> tokens ! (i + 1) = snd p")
        case m: True
        have "merge_loop tokens p r (i + 2) (acc @ [r])
                = (acc @ [r]) @ replace_pairs (drop (i + 2) tokens) p r"
          using "1.IH"(1) inb True m by simp
        with inb True m d show ?thesis
          by (subst merge_loop.simps) simp
      next
        case m: False
        have "merge_loop tokens p r (i + 1) (acc @ [tokens ! i])
                = (acc @ [tokens ! i]) @ replace_pairs (drop (i + 1) tokens) p r"
          using "1.IH"(2) inb m by simp
        moreover have "drop (i + 1) tokens = tokens ! Suc i # drop (i + 2) tokens"
          using True by (metis Cons_nth_drop_Suc Suc_eq_plus1 add_2_eq_Suc')
        ultimately show ?thesis using inb True m d
          by (subst merge_loop.simps) auto
      qed
    qed
  qed
qed

lemma merge_bytepairs_eq: "merge_bytepairs tokens p r = replace_pairs tokens p r"
  by (simp add: merge_bytepairs_def merge_loop_drop)

lemma length_replace_pairs: "length (replace_pairs xs p r) \<le> length xs"
  by (induction xs p r rule: replace_pairs.induct) auto

text \<open>
  Claim C4. For every token sequence, pair \<open>(a, b)\<close> and replacement ID, the loop of
  \<^verbatim>\<open>_merge_bytepairs\<close> computes the left-to-right, non-overlapping replacement of the
  adjacent pair by the replacement ID (advancing two positions on a match), so that in
  \<open>a, b, b\<close> only the first \<open>(a, b)\<close> is consumed, and the result is never longer than
  the input.
\<close>

theorem merge_bytepairs_single_pass:
  "merge_bytepairs tokens (a, b) r = replace_pairs tokens (a, b) r
   \<and> length (merge_bytepairs tokens (a, b) r) \<le> length tokens
   \<and> merge_bytepairs [a, b, b] (a, b) r = [r, b]"
  by (simp add: merge_bytepairs_eq length_replace_pairs)

subsection \<open>Adjacent pairs\<close>

lemma adj_simps [simp]:
  "adj [] = []" "adj [x] = []" "adj (x # y # ys) = (x, y) # adj (y # ys)"
  by (simp_all add: adj_def)

lemma adj_empty_iff: "adj xs = [] \<longleftrightarrow> length xs < 2"
proof (cases xs)
  case Nil
  then show ?thesis by simp
next
  case (Cons x ys)
  then show ?thesis by (cases ys) auto
qed

lemma set_adj_subset: "(a, b) \<in> set (adj xs) \<Longrightarrow> a \<in> set xs \<and> b \<in> set xs"
  by (auto simp add: adj_def dest: set_zip_leftD set_zip_rightD in_set_dropD)

subsection \<open>Dictionaries\<close>

lemma dict_set_new: "k \<notin> fst ` set d \<Longrightarrow> dict_set d k v = d @ [(k, v)]"
  by (induction d) auto

lemma fst_set_dict_set: "fst ` set (dict_set d k v) = insert k (fst ` set d)"
  by (induction d) (auto split: if_splits, force+)

lemma dict_set_nonempty: "dict_set d k v \<noteq> []"
  by (cases d) (auto split: if_splits)

subsection \<open>Pair counts and the most frequent pair\<close>

lemma keys_count_loop: "fst ` set (count_loop ps counts) = fst ` set counts \<union> set ps"
  by (induction ps arbitrary: counts) (auto simp add: fst_set_dict_set)

lemma keys_count_combinations: "fst ` set (count_combinations tokens) = set (adj tokens)"
  by (simp add: count_combinations_def keys_count_loop adj_def)

lemma max_loop_mem: "max_loop xs best \<in> set (best # xs)"
  by (induction xs arbitrary: best) auto

lemma max_by_count_empty:
  "length tokens < 2 \<Longrightarrow>
   max_by_count (count_combinations tokens) = Inl (ValueError ''max() arg is an empty sequence'')"
proof -
  assume "length tokens < 2"
  then have "adj tokens = []" by (simp add: adj_empty_iff)
  then have "fst ` set (count_combinations tokens) = {}"
    by (simp add: keys_count_combinations)
  then have "count_combinations tokens = []" by simp
  then show ?thesis by (simp add: max_by_count_def)
qed

lemma max_by_count_cases:
  "max_by_count (count_combinations tokens) = Inl e \<Longrightarrow>
     e = ValueError ''max() arg is an empty sequence'' \<and> length tokens < 2"
  "max_by_count (count_combinations tokens) = Inr p \<Longrightarrow> p \<in> set (adj tokens)"
proof -
  assume "max_by_count (count_combinations tokens) = Inl e"
  then have "count_combinations tokens = []" "e = ValueError ''max() arg is an empty sequence''"
    by (auto simp add: max_by_count_def split: list.splits)
  then have "set (adj tokens) = {}"
    using keys_count_combinations [of tokens] by simp
  then show "e = ValueError ''max() arg is an empty sequence'' \<and> length tokens < 2"
    using \<open>e = _\<close> by (simp add: adj_empty_iff)
next
  assume "max_by_count (count_combinations tokens) = Inr p"
  then obtain x xs where c: "count_combinations tokens = x # xs" and p: "p = fst (max_loop xs x)"
    by (auto simp add: max_by_count_def split: list.splits)
  have "max_loop xs x \<in> set (count_combinations tokens)"
    using max_loop_mem [of xs x] c by simp
  then have "p \<in> fst ` set (count_combinations tokens)" using p by blast
  then show "p \<in> set (adj tokens)" by (simp add: keys_count_combinations)
qed

subsection \<open>What one merge does to the sequence\<close>

lemma replace_pairs_shrinks:
  "p \<in> set (adj xs) \<Longrightarrow> length (replace_pairs xs p r) < length xs"
proof (induction xs p r rule: replace_pairs.induct)
  case (1 x y ys p r)
  show ?case
  proof (cases "x = fst p \<and> y = snd p")
    case True
    have "length (replace_pairs ys p r) \<le> length ys" by (rule length_replace_pairs)
    with True show ?thesis by simp
  next
    case False
    with "1.prems" have "p \<in> set (adj (y # ys))" by auto
    with "1.IH"(2) False show ?thesis by auto
  qed
qed simp_all

lemma set_replace_pairs: "set (replace_pairs xs p r) \<subseteq> insert r (set xs)"
  by (induction xs p r rule: replace_pairs.induct) auto

lemma replace_pairs_hd:
  "replace_pairs (y # ys) p r = z # zs \<Longrightarrow> z = y \<or> z = r"
  by (cases ys) (auto split: if_splits)

lemma replace_pairs_Cons_nonempty: "replace_pairs (y # ys) p r \<noteq> []"
  by (cases ys) auto

lemma adj_replace_pairs:
  "q \<in> set (adj (replace_pairs xs p r)) \<Longrightarrow>
   fst q = r \<or> snd q = r \<or> (q \<in> set (adj xs) \<and> q \<noteq> p)"
proof (induction xs p r arbitrary: q rule: replace_pairs.induct)
  case (1 x y ys p r)
  show ?case
  proof (cases "x = fst p \<and> y = snd p")
    case True
    then have rp: "replace_pairs (x # y # ys) p r = r # replace_pairs ys p r" by simp
    show ?thesis
    proof (cases "replace_pairs ys p r")
      case Nil
      with rp "1.prems" show ?thesis by simp
    next
      case (Cons z zs)
      with rp "1.prems" have "q = (r, z) \<or> q \<in> set (adj (replace_pairs ys p r))" by auto
      then show ?thesis
      proof
        assume "q = (r, z)" then show ?thesis by simp
      next
        assume "q \<in> set (adj (replace_pairs ys p r))"
        from "1.IH"(1) [OF True this] show ?thesis
          by (cases ys) auto
      qed
    qed
  next
    case False
    then have rp: "replace_pairs (x # y # ys) p r = x # replace_pairs (y # ys) p r" by auto
    obtain z zs where zz: "replace_pairs (y # ys) p r = z # zs"
      using replace_pairs_Cons_nonempty [of y ys p r] by (cases "replace_pairs (y # ys) p r") auto
    with rp "1.prems" have "q = (x, z) \<or> q \<in> set (adj (replace_pairs (y # ys) p r))" by auto
    then show ?thesis
    proof
      assume q: "q = (x, z)"
      from replace_pairs_hd [OF zz] have "z = y \<or> z = r" .
      with q False show ?thesis by (cases p) auto
    next
      assume "q \<in> set (adj (replace_pairs (y # ys) p r))"
      from "1.IH"(2) [OF False this] False show ?thesis by auto
    qed
  qed
qed simp_all


subsection \<open>The training loop\<close>

lemma encode_loop_append:
  "encode_loop (ms @ ms') xs = encode_loop ms' (encode_loop ms xs)"
  by (induction ms xs rule: encode_loop.induct) auto

lemma train_inv_values:
  assumes "train_inv start i tokens ms" "(q, v) \<in> set ms"
  shows "256 \<le> v \<and> v < 256 + i"
proof -
  from assms(2) have "v \<in> set (map snd ms)" by force
  also from assms(1) have "map snd ms = map (\<lambda>k. 256 + int k) [0..<nat i]"
    by (simp add: train_inv_def)
  finally obtain k where "k < nat i" "v = 256 + int k" by auto
  then show ?thesis by auto
qed

lemma train_inv_step:
  assumes inv: "train_inv start i tokens ms" and p: "p \<in> set (adj tokens)"
  shows "dict_set ms p (256 + i) = ms @ [(p, 256 + i)]"
    and "train_inv start (i + 1) (merge_bytepairs tokens p (256 + i)) (ms @ [(p, 256 + i)])"
proof -
  obtain a b where pab: "p = (a, b)" by (cases p)
  from inv have i0: "0 \<le> i"
    and bound: "\<forall>t \<in> set tokens. 0 \<le> t \<and> t < 256 + i"
    and vals: "map snd ms = map (\<lambda>k. 256 + int k) [0..<nat i]"
    and keys: "\<forall>((a, b), v) \<in> set ms. 0 \<le> a \<and> a < v \<and> 0 \<le> b \<and> b < v \<and> (a, b) \<notin> set (adj tokens)"
    and enc: "encode_loop ms start = tokens"
    by (simp_all add: train_inv_def)
  have fresh: "p \<notin> fst ` set ms"
  proof
    assume "p \<in> fst ` set ms"
    then obtain v where "(p, v) \<in> set ms" by force
    with keys pab have "(a, b) \<notin> set (adj tokens)" by auto
    with p pab show False by simp
  qed
  then show "dict_set ms p (256 + i) = ms @ [(p, 256 + i)]" by (rule dict_set_new)
  let ?r = "256 + i"
  let ?toks = "replace_pairs tokens p ?r"
  from p pab have ab: "a \<in> set tokens" "b \<in> set tokens"
    using set_adj_subset by blast+
  with bound have abr: "0 \<le> a" "a < ?r" "0 \<le> b" "b < ?r" by auto
  have b': "\<forall>t \<in> set ?toks. 0 \<le> t \<and> t < 256 + (i + 1)"
  proof
    fix t assume "t \<in> set ?toks"
    then have "t = ?r \<or> t \<in> set tokens" using set_replace_pairs [of tokens p ?r] by auto
    with bound i0 show "0 \<le> t \<and> t < 256 + (i + 1)" by auto
  qed
  have v': "map snd (ms @ [(p, ?r)]) = map (\<lambda>k. 256 + int k) [0..<nat (i + 1)]"
  proof -
    from i0 have "nat (i + 1) = Suc (nat i)" by simp
    with vals i0 show ?thesis by simp
  qed
  have k': "\<forall>((a, b), v) \<in> set (ms @ [(p, ?r)]).
              0 \<le> a \<and> a < v \<and> 0 \<le> b \<and> b < v \<and> (a, b) \<notin> set (adj ?toks)"
  proof (clarify)
    fix c d v assume mem: "((c, d), v) \<in> set (ms @ [(p, ?r)])"
    show "0 \<le> c \<and> c < v \<and> 0 \<le> d \<and> d < v \<and> (c, d) \<notin> set (adj ?toks)"
    proof (cases "((c, d), v) \<in> set ms")
      case True
      with keys have old: "0 \<le> c" "c < v" "0 \<le> d" "d < v" "(c, d) \<notin> set (adj tokens)"
        by auto
      from train_inv_values [OF inv True] have "v < ?r" by simp
      with old have "c \<noteq> ?r" "d \<noteq> ?r" by auto
      with old(5) have "(c, d) \<notin> set (adj ?toks)"
        using adj_replace_pairs [of "(c, d)" tokens p ?r] by auto
      with old show ?thesis by simp
    next
      case False
      with mem pab have eq: "c = a" "d = b" "v = ?r" by auto
      from abr have "(a, b) \<notin> set (adj ?toks)"
        using adj_replace_pairs [of "(a, b)" tokens p ?r] pab by auto
      with eq abr show ?thesis by simp
    qed
  qed
  have e': "encode_loop (ms @ [(p, ?r)]) start = merge_bytepairs tokens p ?r"
    using enc pab by (simp add: encode_loop_append)
  from i0 b' v' k' e'
  show "train_inv start (i + 1) (merge_bytepairs tokens p ?r) (ms @ [(p, ?r)])"
    unfolding train_inv_def merge_bytepairs_eq by (intro conjI) simp_all
qed

lemma train_loop_returns:
  "train_loop n i tokens ms = (Inr toks, ms') \<Longrightarrow> train_inv start i tokens ms \<Longrightarrow>
   train_inv start (i + int n) toks ms'"
proof (induction n arbitrary: i tokens ms)
  case 0
  then show ?case by simp
next
  case (Suc n)
  from Suc.prems(1) obtain p where p: "max_by_count (count_combinations tokens) = Inr p"
    by (cases "max_by_count (count_combinations tokens)") auto
  then have mem: "p \<in> set (adj tokens)" by (rule max_by_count_cases(2))
  from train_inv_step [OF Suc.prems(2) mem]
  have ds: "dict_set ms p (256 + i) = ms @ [(p, 256 + i)]"
    and inv': "train_inv start (i + 1) (merge_bytepairs tokens p (256 + i)) (ms @ [(p, 256 + i)])"
    by simp_all
  from Suc.prems(1) p ds
  have "train_loop n (i + 1) (merge_bytepairs tokens p (256 + i)) (ms @ [(p, 256 + i)])
          = (Inr toks, ms')"
    by (simp add: Let_def)
  from Suc.IH [OF this inv'] show ?case by (simp add: algebra_simps)
qed

lemma train_loop_raises:
  "train_loop n i tokens ms = (Inl e, ms') \<Longrightarrow> e = ValueError ''max() arg is an empty sequence''"
proof (induction n arbitrary: i tokens ms)
  case 0
  then show ?case by simp
next
  case (Suc n)
  show ?case
  proof (cases "max_by_count (count_combinations tokens)")
    case (Inl e')
    with Suc.prems max_by_count_cases(1) [OF Inl] show ?thesis by simp
  next
    case (Inr p)
    with Suc.prems Suc.IH show ?thesis by (simp add: Let_def)
  qed
qed

lemma train_loop_short:
  "0 < n \<Longrightarrow> length tokens \<le> n \<Longrightarrow>
   fst (train_loop n i tokens ms) = Inl (ValueError ''max() arg is an empty sequence'')"
proof (induction n arbitrary: i tokens ms)
  case 0
  then show ?case by simp
next
  case (Suc n)
  show ?case
  proof (cases "max_by_count (count_combinations tokens)")
    case (Inl e')
    with max_by_count_cases(1) [OF Inl] show ?thesis by simp
  next
    case (Inr p)
    then have mem: "p \<in> set (adj tokens)" by (rule max_by_count_cases(2))
    then have "adj tokens \<noteq> []" by auto
    then have two: "2 \<le> length tokens" using adj_empty_iff [of tokens] by simp
    from replace_pairs_shrinks [OF mem, of "256 + i"]
    have "length (merge_bytepairs tokens p (256 + i)) < length tokens"
      by (simp add: merge_bytepairs_eq)
    with Suc.prems two have "0 < n" "length (merge_bytepairs tokens p (256 + i)) \<le> n" by auto
    from Suc.IH [OF this] Inr show ?thesis by (simp add: Let_def)
  qed
qed

subsection \<open>Concrete runs used below\<close>

lemma build_vocab_empty: "build_vocab [] [] = Inr byte_vocab"
  by (simp add: build_vocab_def)

lemma train_aa:
  "train init [97, 97] 257
     = (Returned, \<lparr>merges = [((97, 97), 256)], special_tokens = [],
                   vocab = byte_vocab(256 \<mapsto> [97, 97])\<rparr>)"
  by (simp add: train_def init_def utf8_encode_char_def count_combinations_def
      max_by_count_def merge_bytepairs_eq build_vocab_def byte_vocab_def)

subsection \<open>\<^verbatim>\<open>add_special_token\<close>\<close>

text \<open>
  Claim C7. \<^verbatim>\<open>add_special_token\<close> has no raising path: on every state it returns its
  notices and the object. When no merges exist yet, or the string is already a registered
  special token, it prints one failure notice and returns with the whole object
  unchanged; otherwise it prints nothing and appends the string to
  \<^verbatim>\<open>self.special_tokens\<close>.
\<close>

theorem add_special_token_guard:
  "(length (merges self) = 0 \<or> map_of (special_tokens self) s \<noteq> None \<longrightarrow>
      add_special_token self s =
        ([if length (merges self) = 0 then Fail_before_training
          else Fail_already_exists s], self))
   \<and> (\<not> (length (merges self) = 0 \<or> map_of (special_tokens self) s \<noteq> None) \<longrightarrow>
      add_special_token self s =
        ([], self\<lparr>special_tokens := special_tokens self
               @ [(s, 256 + int (length (merges self)) + int (length (special_tokens self)))]\<rparr>))"
proof (intro conjI impI)
  assume "length (merges self) = 0 \<or> map_of (special_tokens self) s \<noteq> None"
  then show "add_special_token self s =
        ([if length (merges self) = 0 then Fail_before_training
          else Fail_already_exists s], self)"
    by (auto simp add: add_special_token_def)
next
  assume a: "\<not> (length (merges self) = 0 \<or> map_of (special_tokens self) s \<noteq> None)"
  then have "s \<notin> fst ` set (special_tokens self)" by (simp add: map_of_eq_None_iff)
  from dict_set_new [OF this] a
  show "add_special_token self s =
        ([], self\<lparr>special_tokens := special_tokens self
               @ [(s, 256 + int (length (merges self)) + int (length (special_tokens self)))]\<rparr>)"
    by (simp add: add_special_token_def)
qed

theorem add_special_token_guard_witness:
  "add_special_token init [60, 115, 62] = ([Fail_before_training], init)
   \<and> add_special_token
        \<lparr>merges = [((97, 97), 256)], special_tokens = [([60, 115, 62], 257)],
         vocab = byte_vocab\<rparr> [60, 115, 62]
      = ([Fail_already_exists [60, 115, 62]],
         \<lparr>merges = [((97, 97), 256)], special_tokens = [([60, 115, 62], 257)],
          vocab = byte_vocab\<rparr>)
   \<and> add_special_token
        \<lparr>merges = [((97, 97), 256)], special_tokens = [([60, 115, 62], 257)],
         vocab = byte_vocab\<rparr> [60, 101, 62]
      = ([],
         \<lparr>merges = [((97, 97), 256)],
          special_tokens = [([60, 115, 62], 257), ([60, 101, 62], 258)],
          vocab = byte_vocab\<rparr>)"
  using add_special_token_guard [of init "[60, 115, 62]"]
    add_special_token_guard
      [of "\<lparr>merges = [((97, 97), 256)], special_tokens = [([60, 115, 62], 257)],
            vocab = byte_vocab\<rparr>" "[60, 115, 62]"]
    add_special_token_guard
      [of "\<lparr>merges = [((97, 97), 256)], special_tokens = [([60, 115, 62], 257)],
            vocab = byte_vocab\<rparr>" "[60, 101, 62]"]
  by (simp add: init_def)

text \<open>
  Claim C6, at the input where the code departs from it. After training on \<open>"aa"\<close> with
  \<open>vocab_size = 257\<close> (one merge), \<^verbatim>\<open>add_special_token("<s>")\<close> prints nothing and
  registers \<open>"<s>"\<close> under \<open>256 + 1 + 0 = 257\<close>, as the claim says; but
  \<^verbatim>\<open>self.vocab\<close> is not rebuilt: it has no entry 257 and \<^verbatim>\<open>decode([257])\<close> raises
  \<^verbatim>\<open>KeyError\<close>, although \<^verbatim>\<open>_build_vocab\<close> on the new state would map 257 to the
  bytes of \<open>"<s>"\<close>.
\<close>

theorem add_special_token_stale_vocab:
  "(case add_special_token (snd (train init [97, 97] 257)) [60, 115, 62] of
      (notices, t') \<Rightarrow>
        notices = []
        \<and> special_tokens t' = [([60, 115, 62], 257)]
        \<and> vocab t' 257 = None
        \<and> decode t' [257] = Inl (KeyError 257)
        \<and> (case build_vocab (merges t') (special_tokens t') of
              Inl e \<Rightarrow> False
            | Inr v \<Rightarrow> v 257 = Some [60, 115, 62]))"
  by (simp add: train_aa add_special_token_def decode_def byte_vocab_def build_vocab_def
      utf8_encode_char_def)

subsection \<open>\<^verbatim>\<open>decode\<close>\<close>

lemma join_vocab_all:
  "\<forall>idx \<in> set ids. voc idx \<noteq> None \<Longrightarrow>
   join_vocab voc ids = Inr (concat (map (\<lambda>idx. the (voc idx)) ids))"
  by (induction ids) auto

subsection \<open>\<^verbatim>\<open>train\<close> and \<^verbatim>\<open>encode\<close>\<close>

lemma train_inv_start: "train_inv (map uint (bs :: byte list)) 0 (map uint bs) []"
proof -
  have "\<forall>t \<in> set (map uint bs). 0 \<le> t \<and> t < 256 + 0"
  proof
    fix t assume "t \<in> set (map uint bs)"
    then obtain b :: byte where "t = uint b" by auto
    moreover have "uint b < 2 ^ 8" using uint_bounded [of b] by simp
    ultimately show "0 \<le> t \<and> t < 256 + 0" by simp
  qed
  then show ?thesis by (simp add: train_inv_def)
qed

lemma encode_loop_foldl:
  "encode_loop ms xs = foldl (\<lambda>ts (p, v). replace_pairs ts p v) xs ms"
  by (induction ms xs rule: encode_loop.induct) (simp_all add: merge_bytepairs_eq)

lemma train_returned:
  assumes "train self corpus vocab_size = (Returned, tok)"
  obtains bs tokens v where
    "utf8_encode corpus = Inr bs"
    "train_loop (nat (vocab_size - 256)) 0 (map uint bs) [] = (Inr tokens, merges tok)"
    "build_vocab (merges tok) (special_tokens self) = Inr v"
    "tok = self\<lparr>merges := merges tok, vocab := v\<rparr>"
  using assms
  by (auto simp add: train_def split: sum.splits prod.splits)

lemma special_tokens_init: "special_tokens init = []"
  by (simp add: init_def)

lemma count_aaab:
  "count_combinations [97, 97, 97, 98, 100, 97, 97, 97, 98, 97, 99]
   = [((97, 97), 4), ((97, 98), 2), ((98, 100), 1), ((100, 97), 1), ((98, 97), 1), ((97, 99), 1)]"
  by (simp add: count_combinations_def)

lemma train_aaab:
  "train init [97, 97, 97, 98, 100, 97, 97, 97, 98, 97, 99] 259
     = (Returned, \<lparr>merges = [((97, 97), 256), ((256, 97), 257), ((257, 98), 258)],
          special_tokens = [],
          vocab = byte_vocab(256 \<mapsto> [97, 97], 257 \<mapsto> [97, 97, 97], 258 \<mapsto> [97, 97, 97, 98])\<rparr>)"
  by (simp add: train_def init_def utf8_encode_char_def count_combinations_def
      max_by_count_def merge_bytepairs_eq build_vocab_def byte_vocab_def numeral_3_eq_3)

text \<open>
  Claim C3. \<^verbatim>\<open>encode\<close> applies the recorded rules in the insertion order of
  \<^verbatim>\<open>self.merges\<close>, each as one full single-merge pass over the current sequence, and
  counts no pairs. Consequently, whenever \<^verbatim>\<open>train(corpus, vocab_size)\<close> returns,
  \<^verbatim>\<open>encode(corpus)\<close> on the resulting tokenizer is the working token sequence that
  training ended with.
\<close>

theorem encode_replays_training:
  "(\<forall>bs. utf8_encode input = Inr bs \<longrightarrow>
      encode self input
        = Inr (foldl (\<lambda>ts (p, v). replace_pairs ts p v) (map uint bs) (merges self)))
   \<and> (train self0 corpus vocab_size = (Returned, tok) \<longrightarrow>
        encode tok corpus = train_tokens corpus vocab_size
        \<and> (\<exists>tokens. train_tokens corpus vocab_size = Inr tokens))"
proof (intro conjI allI impI)
  fix bs assume "utf8_encode input = Inr bs"
  then show "encode self input
        = Inr (foldl (\<lambda>ts (p, v). replace_pairs ts p v) (map uint bs) (merges self))"
    by (simp add: encode_def encode_loop_foldl)
next
  assume "train self0 corpus vocab_size = (Returned, tok)"
  then obtain bs tokens where bs: "utf8_encode corpus = Inr bs"
    and tl: "train_loop (nat (vocab_size - 256)) 0 (map uint bs) [] = (Inr tokens, merges tok)"
    by (rule train_returned)
  from train_loop_returns [OF tl train_inv_start]
  have "encode_loop (merges tok) (map uint bs) = tokens" by (simp add: train_inv_def)
  with bs tl show "encode tok corpus = train_tokens corpus vocab_size"
    by (simp add: encode_def train_tokens_def)
  from bs tl show "\<exists>tokens. train_tokens corpus vocab_size = Inr tokens"
    by (simp add: train_tokens_def)
qed

theorem encode_replays_training_witness:
  "utf8_encode [97, 97, 97, 98, 100, 97, 97, 97, 98, 97, 99]
     = Inr [97, 97, 97, 98, 100, 97, 97, 97, 98, 97, 99]
   \<and> fst (train init [97, 97, 97, 98, 100, 97, 97, 97, 98, 97, 99] 259) = Returned
   \<and> merges (snd (train init [97, 97, 97, 98, 100, 97, 97, 97, 98, 97, 99] 259))
       = [((97, 97), 256), ((256, 97), 257), ((257, 98), 258)]
   \<and> encode (snd (train init [97, 97, 97, 98, 100, 97, 97, 97, 98, 97, 99] 259))
        [97, 97, 97, 98, 100, 97, 97, 97, 98, 97, 99] = Inr [258, 100, 258, 97, 99]
   \<and> train_tokens [97, 97, 97, 98, 100, 97, 97, 97, 98, 97, 99] 259
       = Inr [258, 100, 258, 97, 99]"
  using encode_replays_training
    [of "[97, 97, 97, 98, 100, 97, 97, 97, 98, 97, 99]"
        "snd (train init [97, 97, 97, 98, 100, 97, 97, 97, 98, 97, 99] 259)"
        init "[97, 97, 97, 98, 100, 97, 97, 97, 98, 97, 99]" 259
        "snd (train init [97, 97, 97, 98, 100, 97, 97, 97, 98, 97, 99] 259)"]
  by (auto simp add: train_aaab utf8_encode_char_def)

text \<open>
  Claim C5, as the code has it. For a corpus that encodes to the bytes \<open>bs\<close>:
  with \<open>vocab_size > 256\<close> and at most \<open>vocab_size - 256\<close> bytes of corpus (so for
  the empty corpus and \<open>vocab_size = 257\<close>), \<^verbatim>\<open>train\<close> raises the \<^verbatim>\<open>ValueError\<close>
  of \<^verbatim>\<open>max\<close> on an empty dictionary; a call that returns has recorded exactly
  \<open>max 0 (vocab_size - 256)\<close> merges, never fewer; and with \<open>vocab_size \<le> 256\<close> the
  loop does not run, so the call returns with no merges once the special tokens encode.
\<close>

theorem train_insufficient_data:
  assumes bs: "utf8_encode corpus = Inr bs"
  shows "(256 < vocab_size \<and> int (length bs) \<le> vocab_size - 256 \<longrightarrow>
            fst (train self corpus vocab_size)
              = Raised (ValueError ''max() arg is an empty sequence''))
         \<and> (fst (train self corpus vocab_size) = Returned \<longrightarrow>
            int (length (merges (snd (train self corpus vocab_size))))
              = max 0 (vocab_size - 256))
         \<and> (vocab_size \<le> 256 \<and> build_specials (special_tokens self) byte_vocab = Inr v \<longrightarrow>
            train self corpus vocab_size = (Returned, self\<lparr>merges := [], vocab := v\<rparr>))"
proof (intro conjI impI)
  assume "256 < vocab_size \<and> int (length bs) \<le> vocab_size - 256"
  then have "0 < nat (vocab_size - 256)" "length (map uint bs) \<le> nat (vocab_size - 256)"
    by auto
  from train_loop_short [OF this, of 0 "[]"] bs
  show "fst (train self corpus vocab_size)
          = Raised (ValueError ''max() arg is an empty sequence'')"
    by (auto simp add: train_def split: prod.splits sum.splits)
next
  assume "fst (train self corpus vocab_size) = Returned"
  then obtain tok where t: "train self corpus vocab_size = (Returned, tok)"
    by (cases "train self corpus vocab_size") auto
  then obtain bs' tokens where "utf8_encode corpus = Inr bs'"
    and tl: "train_loop (nat (vocab_size - 256)) 0 (map uint bs') [] = (Inr tokens, merges tok)"
    by (rule train_returned)
  from train_loop_returns [OF tl train_inv_start]
  have "map snd (merges tok)
          = map (\<lambda>k. 256 + int k) [0..<nat (0 + int (nat (vocab_size - 256)))]"
    by (simp add: train_inv_def)
  then have "length (map snd (merges tok)) = nat (vocab_size - 256)" by simp
  then have "int (length (merges tok)) = max 0 (vocab_size - 256)" by simp
  with t show "int (length (merges (snd (train self corpus vocab_size))))
                 = max 0 (vocab_size - 256)" by simp
next
  assume "vocab_size \<le> 256 \<and> build_specials (special_tokens self) byte_vocab = Inr v"
  with bs show "train self corpus vocab_size = (Returned, self\<lparr>merges := [], vocab := v\<rparr>)"
    by (simp add: train_def build_vocab_def)
qed

theorem train_insufficient_data_witness:
  "utf8_encode [] = Inr []
   \<and> fst (train init [] 257) = Raised (ValueError ''max() arg is an empty sequence'')
   \<and> utf8_encode [97, 97] = Inr [97, 97]
   \<and> fst (train init [97, 97] 258) = Raised (ValueError ''max() arg is an empty sequence'')
   \<and> fst (train init [97, 97] 257) = Returned
   \<and> int (length (merges (snd (train init [97, 97] 257)))) = max 0 (257 - 256)
   \<and> build_specials (special_tokens init) byte_vocab = Inr byte_vocab
   \<and> train init [97, 97] 256 = (Returned, init\<lparr>merges := [], vocab := byte_vocab\<rparr>)"
  using train_insufficient_data [of "[]" "[]" 257 init byte_vocab]
    train_insufficient_data [of "[97, 97]" "[97, 97]" 258 init byte_vocab]
    train_insufficient_data [of "[97, 97]" "[97, 97]" 257 init byte_vocab]
    train_insufficient_data [of "[97, 97]" "[97, 97]" 256 init byte_vocab]
  by (simp add: train_aa utf8_encode_char_def special_tokens_init)

text \<open>
  Against claim C5 as stated: with \<open>vocab_size = 255 < 256\<close> the call returns
  normally; \<^verbatim>\<open>range(vocab_size - 256)\<close> is empty and there is no check of
  \<^verbatim>\<open>vocab_size\<close>.
\<close>

theorem train_small_vocab_size_returns:
  "(255 :: int) < 256 \<and> train init [] 255 = (Returned, init)"
  by (simp add: train_def init_def build_vocab_def)

subsection \<open>UTF-8: decoding what was encoded\<close>

lemma unat_byte: "x < 256 \<Longrightarrow> unat (of_nat x :: byte) = x"
  by (simp add: unat_of_nat)

lemma mod_0x1000: "(c :: nat) mod 0x1000 = 0x40 * (c div 0x40 mod 0x40) + c mod 0x40"
  using mod_mult2_eq [of c "0x40" "0x40"] by simp

lemma mod_0x40000:
  "(c :: nat) mod 0x40000 = 0x1000 * (c div 0x1000 mod 0x40) + c mod 0x1000"
  using mod_mult2_eq [of c "0x1000" "0x40"] by simp

lemma split3:
  "(c :: nat) div 0x1000 * 0x1000 + c div 0x40 mod 0x40 * 0x40 + c mod 0x40 = c"
  using div_mult_mod_eq [of c "0x1000"] mod_0x1000 [of c] by simp

lemma split4:
  "(c :: nat) div 0x40000 * 0x40000 + c div 0x1000 mod 0x40 * 0x1000
     + c div 0x40 mod 0x40 * 0x40 + c mod 0x40 = c"
  using div_mult_mod_eq [of c "0x40000"] mod_0x40000 [of c] mod_0x1000 [of c] by simp

lemma small_mod: "(lo :: nat) \<le> d \<Longrightarrow> d < lo + k \<Longrightarrow> lo mod m = 0 \<Longrightarrow> k \<le> m \<Longrightarrow> d mod m < k"
proof -
  assume a: "lo \<le> d" "d < lo + k" "lo mod m = 0" "k \<le> m"
  then obtain e where e: "d = lo + e" "e < k" by (metis add.commute le_Suc_ex nat_add_left_cancel_less)
  with a have "d mod m = e mod m" by (metis mod_add_left_eq add_0)
  also have "\<dots> = e" using e a by simp
  finally show ?thesis using e by simp
qed

lemma scan2:
  assumes "0x80 \<le> c" "c < 0x800"
  shows "utf8_scan ((0xC0 + c div 0x40) # (0x80 + c mod 0x40) # rest) = Some c # utf8_scan rest"
proof -
  have a: "2 \<le> c div 0x40" "c div 0x40 < 0x20" using assms by auto
  have b: "c mod 0x40 < 0x40" by simp
  have c: "c div 0x40 * 0x40 + c mod 0x40 = c" by simp
  from a b c show ?thesis by (simp add: is_cont_def)
qed

lemma scan3:
  assumes "0x800 \<le> c" "c < 0x10000" "\<not> (0xD800 \<le> c \<and> c < 0xE000)"
  shows "utf8_scan ((0xE0 + c div 0x1000) # (0x80 + c div 0x40 mod 0x40) # (0x80 + c mod 0x40) # rest)
           = Some c # utf8_scan rest"
proof -
  have a: "c div 0x1000 < 0x10" using assms by auto
  have b: "c div 0x40 mod 0x40 < 0x40" "c mod 0x40 < 0x40" by simp_all
  have e0: "0x20 \<le> c div 0x40 mod 0x40" if "c div 0x1000 = 0"
  proof -
    from that assms have "0x20 \<le> c div 0x40" "c div 0x40 < 0x40" by auto
    then show ?thesis by simp
  qed
  have ed: "c div 0x40 mod 0x40 < 0x20" if "c div 0x1000 = 0xD"
  proof -
    from that assms have "0x340 \<le> c div 0x40" "c div 0x40 < 0x340 + 0x20" by auto
    then show ?thesis by (rule small_mod) simp_all
  qed
  from a b e0 ed split3 [of c] show ?thesis by (simp add: is_cont_def second_ok_def)
qed


lemma scan4:
  assumes "0x10000 \<le> c" "c < 0x110000"
  shows "utf8_scan ((0xF0 + c div 0x40000) # (0x80 + c div 0x1000 mod 0x40)
            # (0x80 + c div 0x40 mod 0x40) # (0x80 + c mod 0x40) # rest)
           = Some c # utf8_scan rest"
proof -
  have a: "c div 0x40000 < 5" using assms by auto
  have b: "c div 0x1000 mod 0x40 < 0x40" "c div 0x40 mod 0x40 < 0x40" "c mod 0x40 < 0x40"
    by simp_all
  have f0: "0x10 \<le> c div 0x1000 mod 0x40" if "c div 0x40000 = 0"
  proof -
    from that assms have "0x10 \<le> c div 0x1000" "c div 0x1000 < 0x40" by auto
    then show ?thesis by simp
  qed
  have f4: "c div 0x1000 mod 0x40 < 0x10" if "c div 0x40000 = 4"
  proof -
    from that assms have "0x100 \<le> c div 0x1000" "c div 0x1000 < 0x100 + 0x10" by auto
    then show ?thesis by (rule small_mod) simp_all
  qed
  from a b f0 f4 split4 [of c] show ?thesis by (simp add: is_cont_def second_ok_def)
qed

lemma utf8_scan_encode_char:
  assumes "utf8_encode_char c = Inr bs"
  shows "utf8_scan (map unat bs @ rest) = Some c # utf8_scan rest"
proof -
  consider (one) "c < 0x80"
    | (two) "0x80 \<le> c" "c < 0x800"
    | (three) "0x800 \<le> c" "c < 0x10000" "\<not> (0xD800 \<le> c \<and> c < 0xE000)"
    | (four) "0x10000 \<le> c" "c < 0x110000"
    | (bad) "(0xD800 \<le> c \<and> c < 0xE000) \<or> 0x110000 \<le> c"
    by linarith
  then show ?thesis
  proof cases
    case one
    with assms have "bs = [of_nat c]" by (simp add: utf8_encode_char_def)
    with one show ?thesis by (simp add: unat_byte)
  next
    case two
    with assms have bs: "bs = [of_nat (0xC0 + c div 0x40), of_nat (0x80 + c mod 0x40)]"
      by (simp add: utf8_encode_char_def)
    have "0xC0 + c div 0x40 < 256" "0x80 + c mod 0x40 < 256" using two by auto
    then have "map unat bs = [0xC0 + c div 0x40, 0x80 + c mod 0x40]"
      unfolding bs by (simp only: list.map unat_byte)
    with scan2 [OF two] show ?thesis by simp
  next
    case three
    with assms have bs: "bs = [of_nat (0xE0 + c div 0x1000), of_nat (0x80 + c div 0x40 mod 0x40),
                   of_nat (0x80 + c mod 0x40)]"
      by (simp add: utf8_encode_char_def)
    have "0xE0 + c div 0x1000 < 256" "0x80 + c div 0x40 mod 0x40 < 256" "0x80 + c mod 0x40 < 256"
      using three by auto
    then have "map unat bs = [0xE0 + c div 0x1000, 0x80 + c div 0x40 mod 0x40, 0x80 + c mod 0x40]"
      unfolding bs by (simp only: list.map unat_byte)
    with scan3 [OF three] show ?thesis by simp
  next
    case four
    with assms have bs: "bs = [of_nat (0xF0 + c div 0x40000), of_nat (0x80 + c div 0x1000 mod 0x40),
             of_nat (0x80 + c div 0x40 mod 0x40), of_nat (0x80 + c mod 0x40)]"
      by (simp add: utf8_encode_char_def)
    have "0xF0 + c div 0x40000 < 256" "0x80 + c div 0x1000 mod 0x40 < 256"
      "0x80 + c div 0x40 mod 0x40 < 256" "0x80 + c mod 0x40 < 256"
      using four by auto
    then have "map unat bs = [0xF0 + c div 0x40000, 0x80 + c div 0x1000 mod 0x40,
                 0x80 + c div 0x40 mod 0x40, 0x80 + c mod 0x40]"
      unfolding bs by (simp only: list.map unat_byte)
    with scan4 [OF four] show ?thesis by simp
  next
    case bad
    with assms show ?thesis by (auto simp add: utf8_encode_char_def)
  qed
qed

lemma utf8_scan_encode:
  "utf8_encode T = Inr bs \<Longrightarrow> utf8_scan (map unat bs) = map Some T"
proof (induction T arbitrary: bs)
  case Nil
  then show ?case by simp
next
  case (Cons c cs)
  from Cons.prems obtain b1 b2 where c: "utf8_encode_char c = Inr b1"
    and cs: "utf8_encode cs = Inr b2" and bs: "bs = b1 @ b2"
    by (auto split: sum.splits)
  from utf8_scan_encode_char [OF c, of "map unat b2"] Cons.IH [OF cs] bs
  show ?case by simp
qed

lemma utf8_decode_encode:
  assumes "utf8_encode T = Inr bs"
  shows "utf8_decode_replace bs = T" and "utf8_decode_strict bs = Inr T"
  using utf8_scan_encode [OF assms]
  by (auto simp add: utf8_decode_replace_def utf8_decode_strict_def comp_def)

subsection \<open>Lossy decoding\<close>

lemma digits2:
  fixes x y :: nat
  assumes "y < 0x40"
  shows "(x * 0x40 + y) div 0x40 = x" "(x * 0x40 + y) mod 0x40 = y"
  using assms by simp_all

lemma digits3:
  fixes x y z :: nat
  assumes "y < 0x40" "z < 0x40"
  shows "(x * 0x1000 + y * 0x40 + z) div 0x1000 = x"
    "(x * 0x1000 + y * 0x40 + z) div 0x40 mod 0x40 = y"
    "(x * 0x1000 + y * 0x40 + z) mod 0x40 = z"
proof -
  have c: "x * 0x1000 + y * 0x40 + z = (x * 0x40 + y) * 0x40 + z" by simp
  have d: "(x * 0x1000 + y * 0x40 + z) div 0x40 = x * 0x40 + y"
    by (subst c) (rule digits2(1) [OF assms(2)])
  show "(x * 0x1000 + y * 0x40 + z) div 0x40 mod 0x40 = y"
    by (subst d) (rule digits2(2) [OF assms(1)])
  show "(x * 0x1000 + y * 0x40 + z) mod 0x40 = z"
    by (subst c) (rule digits2(2) [OF assms(2)])
  have "(x * 0x1000 + y * 0x40 + z) div 0x1000 = (x * 0x1000 + y * 0x40 + z) div 0x40 div 0x40"
    using div_mult2_eq [of "x * 0x1000 + y * 0x40 + z" "0x40" "0x40"] by simp
  also have "\<dots> = x" by (subst d) (rule digits2(1) [OF assms(1)])
  finally show "(x * 0x1000 + y * 0x40 + z) div 0x1000 = x" .
qed

lemma digits4:
  fixes w x y z :: nat
  assumes "x < 0x40" "y < 0x40" "z < 0x40"
  shows "(w * 0x40000 + x * 0x1000 + y * 0x40 + z) div 0x40000 = w"
    "(w * 0x40000 + x * 0x1000 + y * 0x40 + z) div 0x1000 mod 0x40 = x"
    "(w * 0x40000 + x * 0x1000 + y * 0x40 + z) div 0x40 mod 0x40 = y"
    "(w * 0x40000 + x * 0x1000 + y * 0x40 + z) mod 0x40 = z"
proof -
  let ?c = "w * 0x40000 + x * 0x1000 + y * 0x40 + z"
  have c: "?c = ((w * 0x40 + x) * 0x1000 + y * 0x40 + z)" by simp
  have 1: "?c div 0x1000 = w * 0x40 + x" and 2: "?c div 0x40 mod 0x40 = y"
    and 3: "?c mod 0x40 = z"
    by (subst c, rule digits3 [OF assms(2,3)])+
  show "?c div 0x40 mod 0x40 = y" by (rule 2)
  show "?c mod 0x40 = z" by (rule 3)
  show "?c div 0x1000 mod 0x40 = x" by (subst 1) (rule digits2(2) [OF assms(1)])
  have "?c div 0x40000 = ?c div 0x1000 div 0x40"
    using div_mult2_eq [of ?c "0x1000" "0x40"] by simp
  also have "\<dots> = w" by (subst 1) (rule digits2(1) [OF assms(1)])
  finally show "?c div 0x40000 = w" .
qed


lemma encodes1: "unat b0 < 0x80 \<Longrightarrow> encodes (unat b0) [b0]"
  by (simp add: encodes_def utf8_encode_char_def)

lemma encodes2:
  assumes "0xC2 \<le> unat b0" "unat b0 < 0xE0" "is_cont (unat b1)"
  shows "encodes ((unat b0 - 0xC0) * 0x40 + (unat b1 - 0x80)) [b0, b1]"
proof -
  define x y where "x = unat b0 - 0xC0" and "y = unat b1 - 0x80"
  have x: "2 \<le> x" "x < 0x20" "unat b0 = 0xC0 + x" using assms by (auto simp add: x_def)
  have y: "y < 0x40" "unat b1 = 0x80 + y" using assms by (auto simp add: y_def is_cont_def)
  let ?c = "x * 0x40 + y"
  have r: "0x80 \<le> ?c" "?c < 0x800" using x y by simp_all
  have b: "of_nat (0xC0 + x) = b0" "of_nat (0x80 + y) = b1"
    using x(3) [symmetric] y(2) [symmetric] by simp_all
  have "utf8_encode_char ?c = Inr [of_nat (0xC0 + ?c div 0x40), of_nat (0x80 + ?c mod 0x40)]"
    using r by (simp add: utf8_encode_char_def)
  with digits2 [OF y(1), of x] b show ?thesis
    by (simp add: encodes_def x_def [symmetric] y_def [symmetric])
qed

lemma encodes3:
  assumes "0xE0 \<le> unat b0" "unat b0 < 0xF0" "second_ok (unat b0) (unat b1)" "is_cont (unat b2)"
  shows "encodes ((unat b0 - 0xE0) * 0x1000 + (unat b1 - 0x80) * 0x40 + (unat b2 - 0x80))
           [b0, b1, b2]"
proof -
  define x y z where "x = unat b0 - 0xE0" and "y = unat b1 - 0x80" and "z = unat b2 - 0x80"
  have x: "x < 0x10" "unat b0 = 0xE0 + x" using assms by (auto simp add: x_def)
  have y: "y < 0x40" "unat b1 = 0x80 + y"
    using assms by (auto simp add: y_def is_cont_def second_ok_def)
  have z: "z < 0x40" "unat b2 = 0x80 + z" using assms by (auto simp add: z_def is_cont_def)
  have lo: "0x20 \<le> y" if "x = 0" using that assms(3) x(2) y(2) by (simp add: second_ok_def)
  have hi: "y < 0x20" if "x = 0xD" using that assms(3) x(2) y(2) by (simp add: second_ok_def)
  let ?c = "x * 0x1000 + y * 0x40 + z"
  have r1: "0x800 \<le> ?c" using lo by (cases "x = 0") auto
  have r2: "?c < 0x10000" using x(1) y(1) z(1) by simp
  have r3: "\<not> (0xD800 \<le> ?c \<and> ?c < 0xE000)"
  proof (cases "x = 0xD")
    case True
    with hi y z show ?thesis by simp
  next
    case False
    then have "x \<le> 0xC \<or> 0xE \<le> x" by linarith
    with y z show ?thesis by auto
  qed
  have b: "of_nat (0xE0 + x) = b0" "of_nat (0x80 + y) = b1" "of_nat (0x80 + z) = b2"
    using x(2) [symmetric] y(2) [symmetric] z(2) [symmetric] by simp_all
  have "utf8_encode_char ?c
          = Inr [of_nat (0xE0 + ?c div 0x1000), of_nat (0x80 + ?c div 0x40 mod 0x40),
                 of_nat (0x80 + ?c mod 0x40)]"
    using r1 r2 r3 by (simp add: utf8_encode_char_def)
  also have "\<dots> = Inr [b0, b1, b2]"
    by (simp only: digits3 [OF y(1) z(1), of x] b)
  finally show ?thesis
    by (simp only: encodes_def x_def [symmetric] y_def [symmetric] z_def [symmetric])
qed

lemma encodes4:
  assumes "0xF0 \<le> unat b0" "unat b0 < 0xF5" "second_ok (unat b0) (unat b1)"
    "is_cont (unat b2)" "is_cont (unat b3)"
  shows "encodes ((unat b0 - 0xF0) * 0x40000 + (unat b1 - 0x80) * 0x1000
                  + (unat b2 - 0x80) * 0x40 + (unat b3 - 0x80)) [b0, b1, b2, b3]"
proof -
  define w x y z where "w = unat b0 - 0xF0" and "x = unat b1 - 0x80"
    and "y = unat b2 - 0x80" and "z = unat b3 - 0x80"
  have w: "w < 5" "unat b0 = 0xF0 + w" using assms by (auto simp add: w_def)
  have x: "x < 0x40" "unat b1 = 0x80 + x"
    using assms by (auto simp add: x_def is_cont_def second_ok_def)
  have y: "y < 0x40" "unat b2 = 0x80 + y" using assms by (auto simp add: y_def is_cont_def)
  have z: "z < 0x40" "unat b3 = 0x80 + z" using assms by (auto simp add: z_def is_cont_def)
  have lo: "0x10 \<le> x" if "w = 0" using that assms(3) w(2) x(2) by (simp add: second_ok_def)
  have hi: "x < 0x10" if "w = 4" using that assms(3) w(2) x(2) by (simp add: second_ok_def)
  let ?c = "w * 0x40000 + x * 0x1000 + y * 0x40 + z"
  have r1: "0x10000 \<le> ?c" using lo by (cases "w = 0") auto
  have r2: "?c < 0x110000"
  proof (cases "w = 4")
    case True
    with hi y z show ?thesis by simp
  next
    case False
    with w(1) have "w \<le> 3" by simp
    with x y z show ?thesis by simp
  qed
  have b: "of_nat (0xF0 + w) = b0" "of_nat (0x80 + x) = b1" "of_nat (0x80 + y) = b2"
    "of_nat (0x80 + z) = b3"
    using w(2) [symmetric] x(2) [symmetric] y(2) [symmetric] z(2) [symmetric] by simp_all
  have "utf8_encode_char ?c
          = Inr [of_nat (0xF0 + ?c div 0x40000), of_nat (0x80 + ?c div 0x1000 mod 0x40),
                 of_nat (0x80 + ?c div 0x40 mod 0x40), of_nat (0x80 + ?c mod 0x40)]"
    using r1 r2 by (simp add: utf8_encode_char_def)
  also have "\<dots> = Inr [b0, b1, b2, b3]"
    by (simp only: digits4 [OF x(1) y(1) z(1), of w] b)
  finally show ?thesis
    by (simp only: encodes_def w_def [symmetric] x_def [symmetric] y_def [symmetric]
        z_def [symmetric])
qed



lemma utf8_scan_nonempty: "utf8_scan (x # xs) \<noteq> []"
  by (simp split: list.splits)

lemma encodes_nonempty: "encodes c e \<Longrightarrow> e \<noteq> []"
  by (auto simp add: encodes_def utf8_encode_char_def split: if_splits)

lemma begins_char_scan:
  "begins_char bs \<Longrightarrow> \<exists>c rs. utf8_scan (map unat bs) = Some c # rs"
proof -
  assume "begins_char bs"
  then obtain c e rest where "utf8_encode_char c = Inr e" "bs = e @ rest"
    by (auto simp add: begins_char_def encodes_def prefix_def)
  with utf8_scan_encode_char [of c e "map unat rest"] show ?thesis by simp
qed

lemma truncated_scan:
  "truncated m \<Longrightarrow> \<exists>c x xs. utf8_scan (map unat m @ x # xs) = [Some c]"
proof -
  assume "truncated m"
  then obtain c e b rest where "utf8_encode_char c = Inr e" "e = m @ b # rest"
    by (auto simp add: truncated_def encodes_def strict_prefix_def prefix_def)
      (metis append_Nil2 neq_Nil_conv)
  with utf8_scan_encode_char [of c e "[]"] show ?thesis by auto
qed

lemma truncated_prefix: "truncated m' \<Longrightarrow> prefix m m' \<Longrightarrow> truncated m"
  by (auto simp add: truncated_def) (metis prefix_order.le_less_trans)

lemma scan_ascii: "b0 < 0x80 \<Longrightarrow> utf8_scan (b0 # bs) = Some b0 # utf8_scan bs"
  by simp

lemma scan_lone:
  "0x80 \<le> b0 \<and> b0 < 0xC2 \<or> 0xF5 \<le> b0 \<Longrightarrow> utf8_scan (b0 # bs) = None # utf8_scan bs"
  by auto

lemma scan_two:
  "0xC2 \<le> b0 \<Longrightarrow> b0 < 0xE0 \<Longrightarrow>
   utf8_scan (b0 # bs) =
     (case bs of
        [] \<Rightarrow> [None]
      | b1 # bs1 \<Rightarrow>
          if is_cont b1 then Some ((b0 - 0xC0) * 0x40 + (b1 - 0x80)) # utf8_scan bs1
          else None # utf8_scan bs)"
  by simp

lemma scan_three:
  "0xE0 \<le> b0 \<Longrightarrow> b0 < 0xF0 \<Longrightarrow>
   utf8_scan (b0 # bs) =
     (case bs of
        [] \<Rightarrow> [None]
      | b1 # bs1 \<Rightarrow>
          if \<not> second_ok b0 b1 then None # utf8_scan bs
          else (case bs1 of
             [] \<Rightarrow> [None]
           | b2 # bs2 \<Rightarrow>
               if is_cont b2 then
                 Some ((b0 - 0xE0) * 0x1000 + (b1 - 0x80) * 0x40 + (b2 - 0x80)) # utf8_scan bs2
               else None # utf8_scan bs1))"
  by simp

lemma scan_four:
  "0xF0 \<le> b0 \<Longrightarrow> b0 < 0xF5 \<Longrightarrow>
   utf8_scan (b0 # bs) =
     (case bs of
        [] \<Rightarrow> [None]
      | b1 # bs1 \<Rightarrow>
          if \<not> second_ok b0 b1 then None # utf8_scan bs
          else (case bs1 of
             [] \<Rightarrow> [None]
           | b2 # bs2 \<Rightarrow>
               if \<not> is_cont b2 then None # utf8_scan bs1
               else (case bs2 of
                  [] \<Rightarrow> [None]
                | b3 # bs3 \<Rightarrow>
                    if is_cont b3 then
                      Some ((b0 - 0xF0) * 0x40000 + (b1 - 0x80) * 0x1000
                            + (b2 - 0x80) * 0x40 + (b3 - 0x80)) # utf8_scan bs3
                    else None # utf8_scan bs2)))"
  by simp

lemma lead_cases:
  obtains (ascii) "(b0 :: nat) < 0x80"
  | (lone) "0x80 \<le> b0 \<and> b0 < 0xC2 \<or> 0xF5 \<le> b0"
  | (two) "0xC2 \<le> b0" "b0 < 0xE0"
  | (three) "0xE0 \<le> b0" "b0 < 0xF0"
  | (four) "0xF0 \<le> b0" "b0 < 0xF5"
  by linarith

lemma utf8_scan_Nil_iff: "utf8_scan xs = [] \<longleftrightarrow> xs = []"
proof (cases xs)
  case Nil
  then show ?thesis by simp
next
  case (Cons a as)
  with utf8_scan_nonempty [of a as] show ?thesis by (simp del: utf8_scan.simps)
qed

lemma singleton_scan:
  assumes "utf8_scan (b0 # b1 # x # xs) = [Some c]"
  shows "(0xE0 \<le> b0 \<and> b0 < 0xF0 \<and> second_ok b0 b1 \<and> is_cont x \<and> xs = [])
         \<or> (0xF0 \<le> b0 \<and> b0 < 0xF5 \<and> second_ok b0 b1 \<and> is_cont x
             \<and> (\<exists>y. xs = [y] \<and> is_cont y))"
proof (cases b0 rule: lead_cases)
  case ascii
  from assms [unfolded scan_ascii [OF ascii]] utf8_scan_nonempty [of b1 "x # xs"]
  show ?thesis by (simp del: utf8_scan.simps)
next
  case lone
  from assms [unfolded scan_lone [OF lone]] show ?thesis by (simp del: utf8_scan.simps)
next
  case two
  from assms [unfolded scan_two [OF two] list.case] utf8_scan_nonempty [of x xs]
  show ?thesis by (simp del: utf8_scan.simps split: if_splits)
next
  case three
  from assms [unfolded scan_three [OF three] list.case]
  have "second_ok b0 b1 \<and> is_cont x \<and> utf8_scan xs = []"
    by (simp del: utf8_scan.simps split: if_splits)
  with three show ?thesis by (simp add: utf8_scan_Nil_iff del: utf8_scan.simps)
next
  case four
  from assms [unfolded scan_four [OF four] list.case]
  have 1: "second_ok b0 b1 \<and> is_cont x" and 2: "(case xs of
                  [] \<Rightarrow> [None]
                | b3 # bs3 \<Rightarrow>
                    if is_cont b3 then
                      Some ((b0 - 0xF0) * 0x40000 + (b1 - 0x80) * 0x1000
                            + (x - 0x80) * 0x40 + (b3 - 0x80)) # utf8_scan bs3
                    else None # utf8_scan xs) = [Some c]"
    by (simp_all del: utf8_scan.simps split: if_splits)
  from 2 have "\<exists>y. xs = [y] \<and> is_cont y"
    by (cases xs) (simp_all add: utf8_scan_Nil_iff del: utf8_scan.simps split: if_splits)
  with 1 four show ?thesis by simp
qed

lemma truncated2D:
  assumes "truncated [b0, b1]"
  shows "0xE0 \<le> unat b0 \<and> unat b0 < 0xF5 \<and> second_ok (unat b0) (unat b1)"
proof -
  from truncated_scan [OF assms] obtain c x xs
    where "utf8_scan (unat b0 # unat b1 # x # xs) = [Some c]"
    by (auto simp del: utf8_scan.simps)
  from singleton_scan [OF this] show ?thesis by auto
qed

lemma truncated3D:
  assumes "truncated [b0, b1, b2]"
  shows "0xF0 \<le> unat b0 \<and> unat b0 < 0xF5 \<and> second_ok (unat b0) (unat b1) \<and> is_cont (unat b2)"
proof -
  from truncated_scan [OF assms] obtain c x xs
    where "utf8_scan (unat b0 # unat b1 # unat b2 # x # xs) = [Some c]"
    by (auto simp del: utf8_scan.simps)
  from singleton_scan [OF this] show ?thesis by auto
qed

lemma truncated4D: "\<not> truncated (b0 # b1 # b2 # b3 # bs)"
proof
  assume "truncated (b0 # b1 # b2 # b3 # bs)"
  from truncated_scan [OF this] obtain c x xs
    where "utf8_scan (unat b0 # unat b1 # unat b2 # (unat b3 # map unat bs @ x # xs)) = [Some c]"
    by (auto simp del: utf8_scan.simps)
  from singleton_scan [OF this] show False by auto
qed

lemma cont_0x80: "is_cont (unat (0x80 :: byte))"
  by (simp add: is_cont_def)

lemma truncated2I:
  assumes "0xE0 \<le> unat b0" "unat b0 < 0xF5" "second_ok (unat b0) (unat b1)"
  shows "truncated [b0, b1]"
proof (cases "unat b0 < 0xF0")
  case True
  from encodes3 [OF assms(1) True assms(3) cont_0x80] show ?thesis
    unfolding truncated_def by (intro exI conjI) (assumption, simp add: strict_prefix_def)
next
  case False
  then have "0xF0 \<le> unat b0" by simp
  from encodes4 [OF this assms(2,3) cont_0x80 cont_0x80] show ?thesis
    unfolding truncated_def by (intro exI conjI) (assumption, simp add: strict_prefix_def)
qed

lemma truncated3I:
  assumes "0xF0 \<le> unat b0" "unat b0 < 0xF5" "second_ok (unat b0) (unat b1)" "is_cont (unat b2)"
  shows "truncated [b0, b1, b2]"
  using encodes4 [OF assms cont_0x80]
  unfolding truncated_def by (intro exI conjI) (assumption, simp add: strict_prefix_def)

lemma step_charI: "encodes c e \<Longrightarrow> bs = e @ rest \<Longrightarrow> step_char bs"
  unfolding step_char_def encodes_def
  using utf8_scan_encode_char [of c e "map unat rest"] by auto

lemma step_badI:
  assumes "bs = m @ rest" "m \<noteq> []" "length m = 1 \<or> truncated m"
    and "\<And>b rest'. rest = b # rest' \<Longrightarrow> \<not> truncated (m @ [b])"
    and "utf8_scan (map unat bs) = None # utf8_scan (map unat rest)"
  shows "step_bad bs"
  unfolding step_bad_def using assms by blast


lemma step:
  assumes "bs \<noteq> []"
  shows "step_char bs \<or> step_bad bs"
proof -
  from assms obtain b0 t0 where bs: "bs = b0 # t0" by (cases bs) auto
  show ?thesis
  proof (cases "unat b0" rule: lead_cases)
    case ascii
    from encodes1 [OF ascii] have "step_char bs" by (rule step_charI) (simp add: bs)
    then show ?thesis ..
  next
    case lone
    have "step_bad bs"
    proof (rule step_badI [of bs "[b0]" t0])
      show "\<not> truncated ([b0] @ [b])" if "t0 = b # rest'" for b rest'
        using truncated2D [of b0 b] lone by auto
      show "utf8_scan (map unat bs) = None # utf8_scan (map unat t0)"
        by (simp add: bs scan_lone [OF lone] del: utf8_scan.simps(2))
    qed (simp_all add: bs)
    then show ?thesis ..
  next
    case two
    have one: "step_bad bs" if "utf8_scan (map unat bs) = None # utf8_scan (map unat t0)"
    proof (rule step_badI [of bs "[b0]" t0])
      show "\<not> truncated ([b0] @ [b])" if "t0 = b # rest'" for b rest'
        using truncated2D [of b0 b] two by auto
      show "utf8_scan (map unat bs) = None # utf8_scan (map unat t0)" by (rule that)
    qed (simp_all add: bs)
    show ?thesis
    proof (cases t0)
      case Nil
      then show ?thesis
        using one by (simp add: bs scan_two [OF two] del: utf8_scan.simps(2))
    next
      case (Cons b1 t1)
      show ?thesis
      proof (cases "is_cont (unat b1)")
        case True
        from encodes2 [OF two True] have "step_char bs"
          by (rule step_charI) (simp add: bs Cons)
        then show ?thesis ..
      next
        case False
        then show ?thesis
          using one by (simp add: bs Cons scan_two [OF two] del: utf8_scan.simps(2))
      qed
    qed
  next
    case three
    then have lead: "0xE0 \<le> unat b0" "unat b0 < 0xF5" by simp_all
    have one: "step_bad bs" if "utf8_scan (map unat bs) = None # utf8_scan (map unat t0)"
      and "\<And>b1 t1. t0 = b1 # t1 \<Longrightarrow> \<not> second_ok (unat b0) (unat b1)"
    proof (rule step_badI [of bs "[b0]" t0])
      show "\<not> truncated ([b0] @ [b])" if "t0 = b # rest'" for b rest'
        using truncated2D [of b0 b] that \<open>\<And>b1 t1. t0 = b1 # t1 \<Longrightarrow> \<not> second_ok (unat b0) (unat b1)\<close>
        by auto
      show "utf8_scan (map unat bs) = None # utf8_scan (map unat t0)" by (rule that(1))
    qed (simp_all add: bs)
    show ?thesis
    proof (cases t0)
      case Nil
      then show ?thesis
        using one by (simp add: bs scan_three [OF three] del: utf8_scan.simps(2))
    next
      case (Cons b1 t1)
      show ?thesis
      proof (cases "second_ok (unat b0) (unat b1)")
        case False
        then show ?thesis
          using one by (simp add: bs Cons scan_three [OF three] del: utf8_scan.simps(2))
      next
        case True
        have two: "step_bad bs"
          if "utf8_scan (map unat bs) = None # utf8_scan (map unat t1)"
        proof (rule step_badI [of bs "[b0, b1]" t1])
          show "length [b0, b1] = 1 \<or> truncated [b0, b1]"
            using truncated2I [OF lead True] by simp
          show "\<not> truncated ([b0, b1] @ [b])" if "t1 = b # rest'" for b rest'
            using truncated3D [of b0 b1 b] three by auto
          show "utf8_scan (map unat bs) = None # utf8_scan (map unat t1)" by (rule that)
        qed (simp_all add: bs Cons)
        show ?thesis
        proof (cases t1)
          case Nil
          then show ?thesis
            using two True
            by (simp add: bs Cons scan_three [OF three] del: utf8_scan.simps(2))
        next
          case t1: (Cons b2 t2)
          show ?thesis
          proof (cases "is_cont (unat b2)")
            case cont: True
            from encodes3 [OF three True cont] have "step_char bs"
              by (rule step_charI) (simp add: bs Cons t1)
            then show ?thesis ..
          next
            case False
            then show ?thesis
              using two True
              by (simp add: bs Cons t1 scan_three [OF three] del: utf8_scan.simps(2))
          qed
        qed
      qed
    qed
  next
    case four
    then have lead: "0xE0 \<le> unat b0" "unat b0 < 0xF5" by simp_all
    have one: "step_bad bs" if "utf8_scan (map unat bs) = None # utf8_scan (map unat t0)"
      and "\<And>b1 t1. t0 = b1 # t1 \<Longrightarrow> \<not> second_ok (unat b0) (unat b1)"
    proof (rule step_badI [of bs "[b0]" t0])
      show "\<not> truncated ([b0] @ [b])" if "t0 = b # rest'" for b rest'
        using truncated2D [of b0 b] that \<open>\<And>b1 t1. t0 = b1 # t1 \<Longrightarrow> \<not> second_ok (unat b0) (unat b1)\<close>
        by auto
      show "utf8_scan (map unat bs) = None # utf8_scan (map unat t0)" by (rule that(1))
    qed (simp_all add: bs)
    show ?thesis
    proof (cases t0)
      case Nil
      then show ?thesis
        using one by (simp add: bs scan_four [OF four] del: utf8_scan.simps(2))
    next
      case (Cons b1 t1)
      show ?thesis
      proof (cases "second_ok (unat b0) (unat b1)")
        case False
        then show ?thesis
          using one by (simp add: bs Cons scan_four [OF four] del: utf8_scan.simps(2))
      next
        case True
        have two: "step_bad bs"
          if "utf8_scan (map unat bs) = None # utf8_scan (map unat t1)"
            and "\<And>b2 t2. t1 = b2 # t2 \<Longrightarrow> \<not> is_cont (unat b2)"
        proof (rule step_badI [of bs "[b0, b1]" t1])
          show "length [b0, b1] = 1 \<or> truncated [b0, b1]"
            using truncated2I [OF lead True] by simp
          show "\<not> truncated ([b0, b1] @ [b])" if "t1 = b # rest'" for b rest'
            using truncated3D [of b0 b1 b] that
              \<open>\<And>b2 t2. t1 = b2 # t2 \<Longrightarrow> \<not> is_cont (unat b2)\<close> by auto
          show "utf8_scan (map unat bs) = None # utf8_scan (map unat t1)" by (rule that(1))
        qed (simp_all add: bs Cons)
        show ?thesis
        proof (cases t1)
          case Nil
          then show ?thesis
            using two True
            by (simp add: bs Cons scan_four [OF four] del: utf8_scan.simps(2))
        next
          case t1: (Cons b2 t2)
          show ?thesis
          proof (cases "is_cont (unat b2)")
            case False
            then show ?thesis
              using two True
              by (simp add: bs Cons t1 scan_four [OF four] del: utf8_scan.simps(2))
          next
            case cont: True
            have three: "step_bad bs"
              if "utf8_scan (map unat bs) = None # utf8_scan (map unat t2)"
            proof (rule step_badI [of bs "[b0, b1, b2]" t2])
              show "length [b0, b1, b2] = 1 \<or> truncated [b0, b1, b2]"
                using truncated3I [OF four True cont] by simp
              show "\<not> truncated ([b0, b1, b2] @ [b])" for b
                using truncated4D [of b0 b1 b2 b "[]"] by simp
              show "utf8_scan (map unat bs) = None # utf8_scan (map unat t2)" by (rule that)
            qed (simp_all add: bs Cons t1)
            show ?thesis
            proof (cases t2)
              case Nil
              then show ?thesis
                using three True cont
                by (simp add: bs Cons t1 scan_four [OF four] del: utf8_scan.simps(2))
            next
              case t2: (Cons b3 t3)
              show ?thesis
              proof (cases "is_cont (unat b3)")
                case cont3: True
                from encodes4 [OF four True cont cont3] have "step_char bs"
                  by (rule step_charI) (simp add: bs Cons t1 t2)
                then show ?thesis ..
              next
                case False
                then show ?thesis
                  using three True cont
                  by (simp add: bs Cons t1 t2 scan_four [OF four] del: utf8_scan.simps(2))
              qed
            qed
          qed
        qed
      qed
    qed
  qed
qed

lemma subpart_longer:
  assumes "m @ rest = m' @ rest'" "m \<noteq> []" "length m' = 1 \<or> truncated m'"
    "\<not> (\<exists>b r. rest = b # r \<and> truncated (m @ [b]))"
  shows "length m' \<le> length m"
proof (rule ccontr)
  assume "\<not> length m' \<le> length m"
  then have less: "length m < length m'" by simp
  with assms(1) obtain us where us: "m' = m @ us" "rest = us @ rest'" "us \<noteq> []"
    by (auto simp add: append_eq_append_conv2)
  then obtain b us' where b: "us = b # us'" by (cases us) auto
  from less assms(2) have "length m' \<noteq> 1" by (cases m) auto
  with assms(3) have "truncated m'" by simp
  moreover have "prefix (m @ [b]) m'" using us b by simp
  ultimately have "truncated (m @ [b])" by (rule truncated_prefix)
  with assms(4) us b show False by simp
qed

lemma subpart_unique:
  assumes "m @ rest = m' @ rest'" "m \<noteq> []" "m' \<noteq> []"
    "length m = 1 \<or> truncated m" "length m' = 1 \<or> truncated m'"
    "\<not> (\<exists>b r. rest = b # r \<and> truncated (m @ [b]))"
    "\<not> (\<exists>b r. rest' = b # r \<and> truncated (m' @ [b]))"
  shows "m = m' \<and> rest = rest'"
proof -
  from subpart_longer [OF assms(1,2,5,6)] subpart_longer [OF assms(1) [symmetric] assms(3,4,7)]
  have "length m = length m'" by simp
  with assms(1) show ?thesis by simp
qed

lemma lossy_utf8_scan: "lossy_utf8 bs (utf8_decode_replace bs)"
proof (induction bs rule: length_induct)
  case (1 bs)
  show ?case
  proof (cases "bs = []")
    case True
    then show ?thesis by (simp add: utf8_decode_replace_def lossy_utf8.empty)
  next
    case False
    from step [OF False] show ?thesis
    proof
      assume "step_char bs"
      then obtain c e rest where e: "encodes c e" "bs = e @ rest"
        and scan: "utf8_scan (map unat bs) = Some c # utf8_scan (map unat rest)"
        by (auto simp add: step_char_def)
      from encodes_nonempty [OF e(1)] e(2) have "length rest < length bs" by simp
      with 1 have "lossy_utf8 rest (utf8_decode_replace rest)" by simp
      from lossy_utf8.char [OF e(1) this] e(2) scan show ?thesis
        by (simp add: utf8_decode_replace_def)
    next
      assume "step_bad bs"
      then obtain m rest where m: "bs = m @ rest" "m \<noteq> []" "length m = 1 \<or> truncated m"
        "\<not> (\<exists>b rest'. rest = b # rest' \<and> truncated (m @ [b]))"
        and scan: "utf8_scan (map unat bs) = None # utf8_scan (map unat rest)"
        by (auto simp add: step_bad_def)
      from m have "length rest < length bs" by simp
      with 1 have IH: "lossy_utf8 rest (utf8_decode_replace rest)" by simp
      from begins_char_scan [of bs] scan have "\<not> begins_char (m @ rest)" using m(1) by auto
      from lossy_utf8.ill_formed [OF m(2) this m(3,4) IH] m(1) scan show ?thesis
        by (simp add: utf8_decode_replace_def)
    qed
  qed
qed

lemma lossy_utf8_unique: "lossy_utf8 bs s \<Longrightarrow> s = utf8_decode_replace bs"
proof (induction rule: lossy_utf8.induct)
  case empty
  show ?case by (simp add: utf8_decode_replace_def)
next
  case (char c e rest s)
  from char(1) have "utf8_encode_char c = Inr e" by (simp add: encodes_def)
  from utf8_scan_encode_char [OF this, of "map unat rest"] char(3) show ?case
    by (simp add: utf8_decode_replace_def)
next
  case (ill_formed m rest s)
  from ill_formed(1) have ne: "m @ rest \<noteq> []" by simp
  from step [OF ne] have "step_bad (m @ rest)"
  proof
    assume "step_char (m @ rest)"
    then obtain c e r where "encodes c e" "m @ rest = e @ r"
      by (auto simp add: step_char_def)
    then have "encodes c e \<and> prefix e (m @ rest)" by simp
    then have "begins_char (m @ rest)" unfolding begins_char_def by blast
    with ill_formed(2) show ?thesis by simp
  qed
  then obtain m' rest' where m': "m @ rest = m' @ rest'" "m' \<noteq> []"
    "length m' = 1 \<or> truncated m'"
    "\<not> (\<exists>b r. rest' = b # r \<and> truncated (m' @ [b]))"
    and scan: "utf8_scan (map unat (m @ rest)) = None # utf8_scan (map unat rest')"
    unfolding step_bad_def by blast
  from subpart_unique [OF m'(1) ill_formed(1) m'(2) ill_formed(3) m'(3) ill_formed(4) m'(4)]
  have "rest = rest'" by simp
  with scan ill_formed(6) show ?case by (simp add: utf8_decode_replace_def)
qed

lemma join_vocab_first_missing:
  "\<forall>idx \<in> set pre. voc idx \<noteq> None \<Longrightarrow> voc idx = None \<Longrightarrow>
   join_vocab voc (pre @ idx # post) = Inl (KeyError idx)"
  by (induction pre) auto

lemma first_missing:
  "\<exists>idx \<in> set ids. voc idx = None \<Longrightarrow>
   \<exists>pre idx post. ids = pre @ idx # post \<and> (\<forall>i \<in> set pre. voc i \<noteq> None) \<and> voc idx = None"
proof (induction ids)
  case Nil
  then show ?case by simp
next
  case (Cons a ids)
  show ?case
  proof (cases "voc a")
    case None
    then have "a # ids = [] @ a # ids \<and> (\<forall>i \<in> set []. voc i \<noteq> None) \<and> voc a = None"
      by simp
    then show ?thesis by blast
  next
    case (Some bs)
    with Cons.prems have "\<exists>idx \<in> set ids. voc idx = None" by auto
    from Cons.IH [OF this] obtain pre idx post
      where "ids = pre @ idx # post" "\<forall>i \<in> set pre. voc i \<noteq> None" "voc idx = None"
      by blast
    with Some have "a # ids = (a # pre) @ idx # post
                     \<and> (\<forall>i \<in> set (a # pre). voc i \<noteq> None) \<and> voc idx = None"
      by simp
    then show ?thesis by blast
  qed
qed

text \<open>
  Claim C8. When every ID of the input is in the vocabulary, \<^verbatim>\<open>decode\<close> returns a text
  and raises nothing. The text is the lossy UTF-8 reading of the concatenated byte
  sequences of the IDs: each encoding of a character gives that character, and each
  maximal ill-formed subpart gives one U+FFFD; no other text is such a reading, and when
  the bytes are the UTF-8 encoding of a text, this text is returned. When some ID is
  absent, \<^verbatim>\<open>decode\<close> raises \<^verbatim>\<open>KeyError\<close> for the first absent ID of the input and
  returns no text.
\<close>

theorem decode_lookup:
  "((\<forall>idx \<in> set ids. vocab self idx \<noteq> None) \<longrightarrow>
      (\<exists>s. decode self ids = Inr s
           \<and> lossy_utf8 (concat (map (\<lambda>idx. the (vocab self idx)) ids)) s
           \<and> (\<forall>s'. lossy_utf8 (concat (map (\<lambda>idx. the (vocab self idx)) ids)) s'
                  \<longrightarrow> s' = s)
           \<and> (\<forall>T. utf8_encode T = Inr (concat (map (\<lambda>idx. the (vocab self idx)) ids))
                  \<longrightarrow> s = T)))
   \<and> ((\<exists>idx \<in> set ids. vocab self idx = None) \<longrightarrow>
      (\<exists>pre idx post. ids = pre @ idx # post \<and> (\<forall>i \<in> set pre. vocab self i \<noteq> None)
         \<and> vocab self idx = None \<and> decode self ids = Inl (KeyError idx)))"
proof (intro conjI impI)
  let ?bs = "concat (map (\<lambda>idx. the (vocab self idx)) ids)"
  assume "\<forall>idx \<in> set ids. vocab self idx \<noteq> None"
  then have d: "decode self ids = Inr (utf8_decode_replace ?bs)"
    by (simp add: decode_def join_vocab_all)
  have 1: "lossy_utf8 ?bs (utf8_decode_replace ?bs)" by (rule lossy_utf8_scan)
  have 2: "\<forall>s'. lossy_utf8 ?bs s' \<longrightarrow> s' = utf8_decode_replace ?bs"
    using lossy_utf8_unique by blast
  have 3: "\<forall>T. utf8_encode T = Inr ?bs \<longrightarrow> utf8_decode_replace ?bs = T"
    using utf8_decode_encode(1) by blast
  from d 1 2 3 show "\<exists>s. decode self ids = Inr s \<and> lossy_utf8 ?bs s
           \<and> (\<forall>s'. lossy_utf8 ?bs s' \<longrightarrow> s' = s)
           \<and> (\<forall>T. utf8_encode T = Inr ?bs \<longrightarrow> s = T)"
    by blast
next
  assume "\<exists>idx \<in> set ids. vocab self idx = None"
  from first_missing [OF this] obtain pre idx post
    where p: "ids = pre @ idx # post" "\<forall>i \<in> set pre. vocab self i \<noteq> None"
      "vocab self idx = None" by blast
  from join_vocab_first_missing [OF p(2,3), of post] p(1)
  have "decode self ids = Inl (KeyError idx)" by (simp add: decode_def)
  with p show "\<exists>pre idx post. ids = pre @ idx # post \<and> (\<forall>i \<in> set pre. vocab self i \<noteq> None)
         \<and> vocab self idx = None \<and> decode self ids = Inl (KeyError idx)" by blast
qed

theorem decode_lookup_witness:
  "decode init [0xE2, 0x82, 0xAC, 0xE2, 0x82, 0x41, 0xFF] = Inr [0x20AC, 0xFFFD, 0x41, 0xFFFD]
   \<and> lossy_utf8 [0xE2, 0x82, 0xAC, 0xE2, 0x82, 0x41, 0xFF] [0x20AC, 0xFFFD, 0x41, 0xFFFD]
   \<and> decode init [104, 256, 105] = Inl (KeyError 256)"
proof -
  have d: "decode init [0xE2, 0x82, 0xAC, 0xE2, 0x82, 0x41, 0xFF]
             = Inr [0x20AC, 0xFFFD, 0x41, 0xFFFD]"
    by (simp add: decode_def init_def byte_vocab_def utf8_decode_replace_def is_cont_def
        second_ok_def)
  have k: "decode init [104, 256, 105] = Inl (KeyError 256)"
    by (simp add: decode_def init_def byte_vocab_def)
  have v: "\<forall>idx \<in> set [0xE2, 0x82, 0xAC, 0xE2, 0x82, 0x41, 0xFF]. vocab init idx \<noteq> None"
    by (simp add: init_def byte_vocab_def)
  have c: "concat (map (\<lambda>idx. the (vocab init idx)) [0xE2, 0x82, 0xAC, 0xE2, 0x82, 0x41, 0xFF])
             = [0xE2, 0x82, 0xAC, 0xE2, 0x82, 0x41, 0xFF]"
    by (simp add: init_def byte_vocab_def)
  from decode_lookup [of "[0xE2, 0x82, 0xAC, 0xE2, 0x82, 0x41, 0xFF]" init] v
  have "lossy_utf8 [0xE2, 0x82, 0xAC, 0xE2, 0x82, 0x41, 0xFF] [0x20AC, 0xFFFD, 0x41, 0xFFFD]"
    unfolding c d by simp
  moreover from decode_lookup [of "[104, 256, 105]" init] k
  have "decode init [104, 256, 105] = Inl (KeyError 256)" by simp
  ultimately show ?thesis using d by simp
qed

subsection \<open>The vocabulary of a trained tokenizer and the round trip\<close>

lemma build_merges_ok:
  assumes "map snd ms = map (\<lambda>k. 256 + j + int k) [0..<length ms]"
    and "\<forall>((a, b), v) \<in> set ms. 0 \<le> a \<and> a < v \<and> 0 \<le> b \<and> b < v"
    and "\<forall>t. 0 \<le> t \<and> t < 256 + j \<longrightarrow> voc t \<noteq> None"
  shows "\<exists>V. build_merges ms voc = Inr V
           \<and> (\<forall>t. t < 256 + j \<longrightarrow> V t = voc t)
           \<and> (\<forall>((a, b), v) \<in> set ms.
                 \<exists>A B. V a = Some A \<and> V b = Some B \<and> V v = Some (A @ B))"
  using assms
proof (induction ms arbitrary: voc j)
  case Nil
  then show ?case by simp
next
  case (Cons m rest)
  obtain a b v where m: "m = ((a, b), v)" by (cases m) auto
  have "snd m # map snd rest
          = (256 + j + int 0) # map (\<lambda>i. 256 + j + int (Suc i)) [0..<length rest]"
    using Cons.prems(1) by (simp add: map_upt_Suc del: upt_Suc)
  then have v: "v = 256 + j"
    and vals: "map snd rest = map (\<lambda>k. 256 + (j + 1) + int k) [0..<length rest]"
    using m by (simp_all add: algebra_simps)
  from Cons.prems(2) m have ab: "0 \<le> a" "a < v" "0 \<le> b" "b < v" by auto
  with Cons.prems(3) v have "voc a \<noteq> None" "voc b \<noteq> None" by auto
  then obtain A B where AB: "voc a = Some A" "voc b = Some B" by auto
  let ?voc = "voc(v \<mapsto> A @ B)"
  from Cons.prems(2) have keys: "\<forall>((a, b), v) \<in> set rest. 0 \<le> a \<and> a < v \<and> 0 \<le> b \<and> b < v"
    by auto
  from Cons.prems(3) v have dom: "\<forall>t. 0 \<le> t \<and> t < 256 + (j + 1) \<longrightarrow> ?voc t \<noteq> None"
    by auto
  from Cons.IH [OF vals keys dom] obtain V where V: "build_merges rest ?voc = Inr V"
    and same: "\<forall>t. t < 256 + (j + 1) \<longrightarrow> V t = ?voc t"
    and rules: "\<forall>((a, b), v) \<in> set rest. \<exists>A B. V a = Some A \<and> V b = Some B \<and> V v = Some (A @ B)"
    by blast
  have 1: "build_merges (m # rest) voc = Inr V" using m AB V by simp
  have 2: "\<forall>t. t < 256 + j \<longrightarrow> V t = voc t" using same v by auto
  have "V a = Some A" "V b = Some B" "V v = Some (A @ B)" using same v ab AB by auto
  with rules m have 3: "\<forall>((a, b), v) \<in> set (m # rest).
          \<exists>A B. V a = Some A \<and> V b = Some B \<and> V v = Some (A @ B)" by auto
  from 1 2 3 show ?case by blast
qed

lemma join_vocab_replace_pairs:
  "V (fst p) = Some A \<Longrightarrow> V (snd p) = Some B \<Longrightarrow> V r = Some (A @ B) \<Longrightarrow>
   join_vocab V (replace_pairs xs p r) = join_vocab V xs"
  by (induction xs p r rule: replace_pairs.induct) (auto split: sum.splits option.splits)

lemma join_vocab_encode_loop:
  "\<forall>((a, b), v) \<in> set ms. \<exists>A B. V a = Some A \<and> V b = Some B \<and> V v = Some (A @ B) \<Longrightarrow>
   join_vocab V (encode_loop ms xs) = join_vocab V xs"
proof (induction ms xs rule: encode_loop.induct)
  case (1 tokens)
  then show ?case by simp
next
  case (2 token_1 token_2 "value" rest tokens)
  from "2.prems" obtain A B where "V token_1 = Some A" "V token_2 = Some B"
    "V value = Some (A @ B)" by auto
  then have "join_vocab V (merge_bytepairs tokens (token_1, token_2) value) = join_vocab V tokens"
    using join_vocab_replace_pairs [of V "(token_1, token_2)" A B "value" tokens]
    by (simp add: merge_bytepairs_eq)
  with "2.IH" "2.prems" show ?case by simp
qed

lemma merges_init: "merges init = []" and vocab_init: "vocab init = byte_vocab"
  by (simp_all add: init_def)

lemma train_fresh_256: "train init [] 256 = (Returned, init)"
  by (simp add: train_def init_def build_vocab_def)

lemma build_specials_other:
  "build_specials sts voc = Inr V \<Longrightarrow> idx \<notin> snd ` set sts \<Longrightarrow> V idx = voc idx"
proof (induction sts arbitrary: voc)
  case Nil
  then show ?case by simp
next
  case (Cons p sts)
  obtain s i where p: "p = (s, i)" by (cases p) auto
  with Cons.prems(1) obtain bs where "build_specials sts (voc(i \<mapsto> bs)) = Inr V"
    by (auto split: sum.splits)
  from Cons.IH [OF this] Cons.prems(2) p show ?case by auto
qed

lemma join_vocab_bytes_nonneg:
  "\<forall>t. 0 \<le> t \<and> t < 256 \<longrightarrow> V t = byte_vocab t \<Longrightarrow>
   join_vocab V (map uint (bs :: byte list)) = Inr bs"
proof (induction bs)
  case Nil
  then show ?case by simp
next
  case (Cons b bs)
  have "uint b < 2 ^ 8" using uint_bounded [of b] by simp
  then have "uint b < 256" by simp
  with Cons.prems have "V (uint b) = Some [b]" by (simp add: byte_vocab_def)
  with Cons show ?case by simp
qed

lemma train_loop_aaa:
  "train_loop (Suc (Suc 0)) 0 [97, 97, 97] []
     = (Inr [257], [((97, 97), 256), ((256, 97), 257)])"
  by (simp add: count_combinations_def max_by_count_def merge_bytepairs_eq)

lemma train_aa_special_aaa:
  "train \<lparr>merges = [((97, 97), 256)], special_tokens = [([60, 115, 62], 257)],
          vocab = byte_vocab(256 \<mapsto> [97, 97])\<rparr> [97, 97, 97] 258
     = (Returned, \<lparr>merges = [((97, 97), 256), ((256, 97), 257)],
          special_tokens = [([60, 115, 62], 257)],
          vocab = byte_vocab(256 \<mapsto> [97, 97], 257 \<mapsto> [60, 115, 62])\<rparr>)"
proof -
  have n: "nat (258 - 256) = Suc (Suc 0)" by simp
  have e: "utf8_encode [97, 97, 97] = Inr [97, 97, 97]" by (simp add: utf8_encode_char_def)
  have u: "map uint [97, 97, 97 :: byte] = [97, 97, 97]" by simp
  have b: "build_vocab [((97, 97), 256), ((256, 97), 257)] [([60, 115, 62], 257)]
     = Inr (byte_vocab(256 \<mapsto> [97, 97], 257 \<mapsto> [60, 115, 62]))"
    by (simp add: build_vocab_def byte_vocab_def utf8_encode_char_def)
  show ?thesis
    unfolding train_def n e by (simp only: sum.case u train_loop_aaa prod.case) (simp add: b)
qed

lemma encode_aaab:
  "merges tok = [((97, 97), 256), ((256, 97), 257), ((257, 98), 258)] \<Longrightarrow>
   encode tok [97, 97, 97, 98, 100, 97, 97, 97, 98, 97, 99] = Inr [258, 100, 258, 97, 99]"
  by (simp add: encode_def utf8_encode_char_def merge_bytepairs_eq)

text \<open>
  Claim C1. Let the merges of a tokenizer be learned ones, those that a \<^verbatim>\<open>train\<close> call
  that returned has left (none, for \<open>vocab_size = 256\<close>), and its vocabulary be the
  one \<^verbatim>\<open>_build_vocab\<close> builds from them and from special tokens \<open>sts\<close> (none, those
  registered now, or those registered when the vocabulary was last built), none of which
  has the ID of a byte or of a merge. Then \<^verbatim>\<open>decode(encode(T))\<close> is \<open>T\<close> for every
  text that has a UTF-8 encoding.
\<close>

theorem decode_encode_roundtrip:
  assumes learned: "train self corpus vocab_size = (Returned, t)" "merges tok = merges t"
    and rebuilt: "build_vocab (merges tok) sts = Inr (vocab tok)"
    and apart: "\<forall>idx \<in> snd ` set sts. \<not> (0 \<le> idx \<and> idx < 256 + int (length (merges tok)))"
    and encT: "utf8_encode T = Inr bs"
  shows "\<exists>ids. encode tok T = Inr ids \<and> decode tok ids = Inr T"
proof -
  from learned(1) obtain cs tokens v where "utf8_encode corpus = Inr cs"
    and tl: "train_loop (nat (vocab_size - 256)) 0 (map uint cs) [] = (Inr tokens, merges t)"
    and "build_vocab (merges t) (special_tokens self) = Inr v"
    and "t = self\<lparr>merges := merges t, vocab := v\<rparr>"
    by (rule train_returned)
  from rebuilt obtain v0 where bm: "build_merges (merges tok) byte_vocab = Inr v0"
    and bs: "build_specials sts v0 = Inr (vocab tok)"
    by (auto simp add: build_vocab_def split: sum.splits)
  from train_loop_returns [OF tl train_inv_start] learned(2)
  have inv: "train_inv (map uint cs) (int (nat (vocab_size - 256))) tokens (merges tok)"
    by simp
  then have vals: "map snd (merges tok)
               = map (\<lambda>k. 256 + int k) [0..<nat (int (nat (vocab_size - 256)))]"
    and keys: "\<forall>((a, b), v) \<in> set (merges tok). 0 \<le> a \<and> a < v \<and> 0 \<le> b \<and> b < v"
    by (auto simp add: train_inv_def)
  from vals have "length (map snd (merges tok)) = nat (vocab_size - 256)" by simp
  then have len: "length (merges tok) = nat (vocab_size - 256)" by simp
  with vals have vals': "map snd (merges tok)
               = map (\<lambda>k. 256 + 0 + int k) [0..<length (merges tok)]" by simp
  have dom: "\<forall>t. 0 \<le> t \<and> t < 256 + 0 \<longrightarrow> byte_vocab t \<noteq> None"
    by (simp add: byte_vocab_def)
  from build_merges_ok [OF vals' keys dom] bm
  have same0: "\<forall>t. t < 256 \<longrightarrow> v0 t = byte_vocab t"
    and rules0: "\<forall>((a, b), w) \<in> set (merges tok).
                  \<exists>A B. v0 a = Some A \<and> v0 b = Some B \<and> v0 w = Some (A @ B)"
    by auto
  have used: "vocab tok idx = v0 idx" if "0 \<le> idx" "idx < 256 + int (length (merges tok))" for idx
    using build_specials_other [OF bs, of idx] apart that by auto
  have same: "\<forall>t. 0 \<le> t \<and> t < 256 \<longrightarrow> vocab tok t = byte_vocab t"
    using used same0 by auto
  have rules: "\<forall>((a, b), w) \<in> set (merges tok).
                  \<exists>A B. vocab tok a = Some A \<and> vocab tok b = Some B \<and> vocab tok w = Some (A @ B)"
  proof (clarify)
    fix a b w assume m: "((a, b), w) \<in> set (merges tok)"
    with keys have ab: "0 \<le> a" "a < w" "0 \<le> b" "b < w" by auto
    from m have "w \<in> set (map snd (merges tok))" by force
    with vals' have "w < 256 + int (length (merges tok))" by auto
    with ab have "vocab tok a = v0 a" "vocab tok b = v0 b" "vocab tok w = v0 w"
      using used by auto
    with rules0 m show "\<exists>A B. vocab tok a = Some A \<and> vocab tok b = Some B \<and> vocab tok w = Some (A @ B)"
      by auto
  qed
  from join_vocab_encode_loop [OF rules] join_vocab_bytes_nonneg [OF same]
  have "join_vocab (vocab tok) (encode_loop (merges tok) (map uint bs)) = Inr bs" by simp
  with encT utf8_decode_encode(1) [OF encT] show ?thesis
    by (simp add: encode_def decode_def)
qed

theorem decode_encode_roundtrip_witness:
  "train init [97, 97, 97, 98, 100, 97, 97, 97, 98, 97, 99] 259
     = (Returned, \<lparr>merges = [((97, 97), 256), ((256, 97), 257), ((257, 98), 258)],
          special_tokens = [],
          vocab = byte_vocab(256 \<mapsto> [97, 97], 257 \<mapsto> [97, 97, 97], 258 \<mapsto> [97, 97, 97, 98])\<rparr>)
   \<and> add_special_token
        \<lparr>merges = [((97, 97), 256), ((256, 97), 257), ((257, 98), 258)],
          special_tokens = [],
          vocab = byte_vocab(256 \<mapsto> [97, 97], 257 \<mapsto> [97, 97, 97], 258 \<mapsto> [97, 97, 97, 98])\<rparr>
        [60, 115, 62]
     = ([], \<lparr>merges = [((97, 97), 256), ((256, 97), 257), ((257, 98), 258)],
          special_tokens = [([60, 115, 62], 259)],
          vocab = byte_vocab(256 \<mapsto> [97, 97], 257 \<mapsto> [97, 97, 97], 258 \<mapsto> [97, 97, 97, 98])\<rparr>)
   \<and> build_vocab [((97, 97), 256), ((256, 97), 257), ((257, 98), 258)] []
       = Inr (byte_vocab(256 \<mapsto> [97, 97], 257 \<mapsto> [97, 97, 97], 258 \<mapsto> [97, 97, 97, 98]))
   \<and> build_vocab [((97, 97), 256), ((256, 97), 257), ((257, 98), 258)] [([60, 115, 62], 259)]
       = Inr (byte_vocab(256 \<mapsto> [97, 97], 257 \<mapsto> [97, 97, 97], 258 \<mapsto> [97, 97, 97, 98],
                259 \<mapsto> [60, 115, 62]))
   \<and> utf8_encode [97, 97, 97, 98, 100, 97, 97, 97, 98, 97, 99]
     = Inr [97, 97, 97, 98, 100, 97, 97, 97, 98, 97, 99]
   \<and> encode \<lparr>merges = [((97, 97), 256), ((256, 97), 257), ((257, 98), 258)],
          special_tokens = [([60, 115, 62], 259)],
          vocab = byte_vocab(256 \<mapsto> [97, 97], 257 \<mapsto> [97, 97, 97], 258 \<mapsto> [97, 97, 97, 98])\<rparr>
        [97, 97, 97, 98, 100, 97, 97, 97, 98, 97, 99] = Inr [258, 100, 258, 97, 99]
   \<and> decode \<lparr>merges = [((97, 97), 256), ((256, 97), 257), ((257, 98), 258)],
          special_tokens = [([60, 115, 62], 259)],
          vocab = byte_vocab(256 \<mapsto> [97, 97], 257 \<mapsto> [97, 97, 97], 258 \<mapsto> [97, 97, 97, 98])\<rparr>
        [258, 100, 258, 97, 99] = Inr [97, 97, 97, 98, 100, 97, 97, 97, 98, 97, 99]
   \<and> encode \<lparr>merges = [((97, 97), 256), ((256, 97), 257), ((257, 98), 258)],
          special_tokens = [([60, 115, 62], 259)],
          vocab = byte_vocab(256 \<mapsto> [97, 97], 257 \<mapsto> [97, 97, 97], 258 \<mapsto> [97, 97, 97, 98],
                    259 \<mapsto> [60, 115, 62])\<rparr>
        [97, 97, 97, 98, 100, 97, 97, 97, 98, 97, 99] = Inr [258, 100, 258, 97, 99]
   \<and> decode \<lparr>merges = [((97, 97), 256), ((256, 97), 257), ((257, 98), 258)],
          special_tokens = [([60, 115, 62], 259)],
          vocab = byte_vocab(256 \<mapsto> [97, 97], 257 \<mapsto> [97, 97, 97], 258 \<mapsto> [97, 97, 97, 98],
                    259 \<mapsto> [60, 115, 62])\<rparr>
        [258, 100, 258, 97, 99] = Inr [97, 97, 97, 98, 100, 97, 97, 97, 98, 97, 99]
   \<and> train init [] 256 = (Returned, init)
   \<and> build_vocab (merges init) [] = Inr (vocab init)
   \<and> utf8_encode [0x20AC, 0x48] = Inr [0xE2, 0x82, 0xAC, 0x48]
   \<and> encode init [0x20AC, 0x48] = Inr [0xE2, 0x82, 0xAC, 0x48]
   \<and> decode init [0xE2, 0x82, 0xAC, 0x48] = Inr [0x20AC, 0x48]"
proof -
  let ?ms = "[((97, 97), 256), ((256, 97), 257), ((257, 98), 258)] :: merges"
  let ?v = "byte_vocab(256 \<mapsto> [97, 97], 257 \<mapsto> [97, 97, 97], 258 \<mapsto> [97, 97, 97, 98])"
  let ?stale = "\<lparr>merges = ?ms, special_tokens = [([60, 115, 62], 259)], vocab = ?v\<rparr>"
  let ?full = "\<lparr>merges = ?ms, special_tokens = [([60, 115, 62], 259)],
                 vocab = ?v(259 \<mapsto> [60, 115, 62])\<rparr>"
  let ?s = "[97, 97, 97, 98, 100, 97, 97, 97, 98, 97, 99] :: nat list"
  have add: "add_special_token \<lparr>merges = ?ms, special_tokens = [], vocab = ?v\<rparr> [60, 115, 62]
               = ([], ?stale)"
    by (simp add: add_special_token_def)
  have bv: "build_vocab ?ms [] = Inr ?v"
    by (simp add: build_vocab_def byte_vocab_def)
  have bvs: "build_vocab ?ms [([60, 115, 62], 259)] = Inr (?v(259 \<mapsto> [60, 115, 62]))"
    by (simp add: build_vocab_def byte_vocab_def utf8_encode_char_def)
  have e1: "utf8_encode ?s = Inr [97, 97, 97, 98, 100, 97, 97, 97, 98, 97, 99]"
    by (simp add: utf8_encode_char_def)
  have enc1: "encode ?stale ?s = Inr [258, 100, 258, 97, 99]"
    by (rule encode_aaab) simp
  have enc1': "encode ?full ?s = Inr [258, 100, 258, 97, 99]"
    by (rule encode_aaab) simp
  have bv0: "build_vocab (merges init) [] = Inr (vocab init)"
    by (simp add: merges_init vocab_init build_vocab_empty)
  have e2: "utf8_encode [0x20AC, 0x48] = Inr [0xE2, 0x82, 0xAC, 0x48]"
    by (simp add: utf8_encode_char_def)
  have enc2: "encode init [0x20AC, 0x48] = Inr [0xE2, 0x82, 0xAC, 0x48]"
    by (simp add: encode_def utf8_encode_char_def merges_init)
  from decode_encode_roundtrip [OF train_aaab, of ?stale "[]" ?s, OF _ _ _ e1] bv enc1
  have d1: "decode ?stale [258, 100, 258, 97, 99] = Inr ?s" by simp
  from decode_encode_roundtrip [OF train_aaab, of ?full "[([60, 115, 62], 259)]" ?s, OF _ _ _ e1]
    bvs enc1'
  have d1': "decode ?full [258, 100, 258, 97, 99] = Inr ?s" by simp
  from decode_encode_roundtrip [OF train_fresh_256 refl bv0 _ e2] enc2
  have d2: "decode init [0xE2, 0x82, 0xAC, 0x48] = Inr [0x20AC, 0x48]" by simp
  from train_aaab add bv bvs e1 enc1 d1 enc1' d1' train_fresh_256 bv0 e2 enc2 d2
  show ?thesis by simp
qed

text \<open>
  Without the condition on the IDs of the special tokens the round trip fails, on a state
  that \<^verbatim>\<open>train\<close> returns: \<^verbatim>\<open>add_special_token\<close> numbers a token after the merges
  that exist, and training again with a larger \<open>vocab_size\<close> learns a merge with that
  ID, whose vocabulary entry \<^verbatim>\<open>_build_vocab\<close> then overwrites. After
  \<^verbatim>\<open>train("aa", 257)\<close>, \<^verbatim>\<open>add_special_token("<s>")\<close> and \<^verbatim>\<open>train("aaa", 258)\<close>,
  \<^verbatim>\<open>encode("aaa")\<close> is \<open>[257]\<close> and \<^verbatim>\<open>decode([257])\<close> is \<open>"<s>"\<close>.
\<close>

theorem roundtrip_fails_after_retraining:
  "train init [97, 97] 257
     = (Returned, \<lparr>merges = [((97, 97), 256)], special_tokens = [],
                   vocab = byte_vocab(256 \<mapsto> [97, 97])\<rparr>)
   \<and> add_special_token \<lparr>merges = [((97, 97), 256)], special_tokens = [],
                         vocab = byte_vocab(256 \<mapsto> [97, 97])\<rparr> [60, 115, 62]
     = ([], \<lparr>merges = [((97, 97), 256)], special_tokens = [([60, 115, 62], 257)],
             vocab = byte_vocab(256 \<mapsto> [97, 97])\<rparr>)
   \<and> train \<lparr>merges = [((97, 97), 256)], special_tokens = [([60, 115, 62], 257)],
             vocab = byte_vocab(256 \<mapsto> [97, 97])\<rparr> [97, 97, 97] 258
     = (Returned, \<lparr>merges = [((97, 97), 256), ((256, 97), 257)],
          special_tokens = [([60, 115, 62], 257)],
          vocab = byte_vocab(256 \<mapsto> [97, 97], 257 \<mapsto> [60, 115, 62])\<rparr>)
   \<and> build_vocab [((97, 97), 256), ((256, 97), 257)] [([60, 115, 62], 257)]
     = Inr (byte_vocab(256 \<mapsto> [97, 97], 257 \<mapsto> [60, 115, 62]))
   \<and> utf8_decode_replace [97, 97, 97] = [97, 97, 97]
   \<and> encode \<lparr>merges = [((97, 97), 256), ((256, 97), 257)],
          special_tokens = [([60, 115, 62], 257)],
          vocab = byte_vocab(256 \<mapsto> [97, 97], 257 \<mapsto> [60, 115, 62])\<rparr> [97, 97, 97]
     = Inr [257]
   \<and> decode \<lparr>merges = [((97, 97), 256), ((256, 97), 257)],
          special_tokens = [([60, 115, 62], 257)],
          vocab = byte_vocab(256 \<mapsto> [97, 97], 257 \<mapsto> [60, 115, 62])\<rparr> [257]
     = Inr [60, 115, 62]"
proof -
  have "utf8_decode_replace [97, 97, 97] = [97, 97, 97]"
    by (simp add: utf8_decode_replace_def)
  moreover have "build_vocab [((97, 97), 256), ((256, 97), 257)] [([60, 115, 62], 257)]
     = Inr (byte_vocab(256 \<mapsto> [97, 97], 257 \<mapsto> [60, 115, 62]))"
    by (simp add: build_vocab_def byte_vocab_def utf8_encode_char_def)
  moreover have "encode \<lparr>merges = [((97, 97), 256), ((256, 97), 257)],
          special_tokens = [([60, 115, 62], 257)],
          vocab = byte_vocab(256 \<mapsto> [97, 97], 257 \<mapsto> [60, 115, 62])\<rparr> [97, 97, 97]
     = Inr [257]"
    by (simp add: encode_def utf8_encode_char_def merge_bytepairs_eq)
  moreover have "decode \<lparr>merges = [((97, 97), 256), ((256, 97), 257)],
          special_tokens = [([60, 115, 62], 257)],
          vocab = byte_vocab(256 \<mapsto> [97, 97], 257 \<mapsto> [60, 115, 62])\<rparr> [257]
     = Inr [60, 115, 62]"
    by (simp add: decode_def utf8_decode_replace_def)
  moreover have "add_special_token \<lparr>merges = [((97, 97), 256)], special_tokens = [],
                         vocab = byte_vocab(256 \<mapsto> [97, 97])\<rparr> [60, 115, 62]
     = ([], \<lparr>merges = [((97, 97), 256)], special_tokens = [([60, 115, 62], 257)],
             vocab = byte_vocab(256 \<mapsto> [97, 97])\<rparr>)"
    by (simp add: add_special_token_def)
  ultimately show ?thesis using train_aa train_aa_special_aaa by simp
qed

subsection \<open>\<^verbatim>\<open>load\<close>: what it keeps\<close>

lemmas file_eval =
  load_def save_def read_text_def open_read_def open_write_def mkdir_def
  utf8_decode_strict_def utf8_decode_replace_def universal_newlines_def py_split_def
  parse_row_def py_int_def strip_def is_space_def digit_value_def over_limit_def
  format_int_def file_write_def file_close_def translate_newlines_def
  is_cont_def second_ok_def merges_file_def special_file_def show_int_def
  utf8_encode_char_def build_vocab_def file_rows_def file_pairs_def posix_def

lemma map_fst_dict_set:
  "map fst (dict_set d k v) = (if k \<in> fst ` set d then map fst d else map fst d @ [k])"
  by (induction d) (auto split: if_splits)

lemma map_of_dict_set: "map_of (dict_set d k v) = (map_of d)(k \<mapsto> v)"
  by (induction d) (auto split: if_splits)

lemma dict_set_extends: "\<exists>extra. map fst (dict_set d k v) = map fst d @ extra"
  by (simp add: map_fst_dict_set)

lemma load_merges_extends:
  "load_merges rt rows i ms = (out, ms') \<Longrightarrow> \<exists>extra. map fst ms' = map fst ms @ extra"
proof (induction rows arbitrary: i ms)
  case Nil
  then show ?case by simp
next
  case (Cons row rows)
  show ?case
  proof (cases "parse_row rt row")
    case (Inl e)
    with Cons.prems show ?thesis by simp
  next
    case (Inr p)
    obtain a b where p: "p = (a, b)" by (cases p)
    with Cons.prems Inr
    have "load_merges rt rows (i + 1) (dict_set ms (a, b) (i + 256)) = (out, ms')" by simp
    from Cons.IH [OF this] obtain e1 where "map fst ms' = map fst (dict_set ms (a, b) (i + 256)) @ e1"
      by blast
    moreover obtain e2 where "map fst (dict_set ms (a, b) (i + 256)) = map fst ms @ e2"
      using dict_set_extends [of ms "(a, b)" "i + 256"] by blast
    ultimately show ?thesis by simp
  qed
qed

lemma load_merges_other_keys:
  "load_merges rt rows i ms = (out, ms') \<Longrightarrow> \<forall>row \<in> set rows. parse_row rt row \<noteq> Inr k \<Longrightarrow>
   map_of ms' k = map_of ms k"
proof (induction rows arbitrary: i ms)
  case Nil
  then show ?case by simp
next
  case (Cons row rows)
  show ?case
  proof (cases "parse_row rt row")
    case (Inl e)
    with Cons.prems show ?thesis by simp
  next
    case (Inr p)
    obtain a b where p: "p = (a, b)" by (cases p)
    with Cons.prems Inr
    have l: "load_merges rt rows (i + 1) (dict_set ms (a, b) (i + 256)) = (out, ms')" by simp
    from Cons.prems(2) Inr p have ne: "(a, b) \<noteq> k" by auto
    from Cons.prems(2) have "\<forall>row \<in> set rows. parse_row rt row \<noteq> Inr k" by simp
    from Cons.IH [OF l this] ne show ?thesis by (simp add: map_of_dict_set)
  qed
qed

lemma load_merges_keys:
  "load_merges rt rows i ms = (Returned, ms') \<Longrightarrow>
   fst ` set ms' = fst ` set ms \<union> {p. \<exists>row \<in> set rows. parse_row rt row = Inr p}"
proof (induction rows arbitrary: i ms)
  case Nil
  then show ?case by simp
next
  case (Cons row rows)
  show ?case
  proof (cases "parse_row rt row")
    case (Inl e)
    with Cons.prems show ?thesis by simp
  next
    case (Inr p)
    obtain a b where p: "p = (a, b)" by (cases p)
    with Cons.prems Inr
    have l: "load_merges rt rows (i + 1) (dict_set ms (a, b) (i + 256)) = (Returned, ms')" by simp
    from Cons.IH [OF l] Inr p show ?thesis by (auto simp add: fst_set_dict_set)
  qed
qed

lemma load_merges_bad_row:
  "\<exists>row \<in> set rows. \<exists>e. parse_row rt row = Inl e \<Longrightarrow>
   \<exists>e ms'. load_merges rt rows i ms = (Raised e, ms')"
proof (induction rows arbitrary: i ms)
  case Nil
  then show ?case by simp
next
  case (Cons row rows)
  show ?case
  proof (cases "parse_row rt row")
    case (Inl e)
    then show ?thesis by simp
  next
    case (Inr p)
    obtain a b where p: "p = (a, b)" by (cases p)
    from Cons.prems Inr have "\<exists>row \<in> set rows. \<exists>e. parse_row rt row = Inl e" by auto
    from Cons.IH [OF this] Inr p show ?thesis by simp
  qed
qed

lemma py_int_error: "py_int rt s = Inl e \<Longrightarrow> \<exists>msg. e = ValueError msg"
  by (auto simp add: py_int_def Let_def split: option.splits prod.splits if_splits)

lemma parse_row_error: "parse_row rt row = Inl e \<Longrightarrow> \<exists>msg. e = ValueError msg"
  by (auto simp add: parse_row_def dest: py_int_error split: list.splits sum.splits)

lemma load_merges_error:
  "load_merges rt rows i ms = (Raised e, ms') \<Longrightarrow> \<exists>msg. e = ValueError msg"
proof (induction rows arbitrary: i ms)
  case Nil
  then show ?case by simp
next
  case (Cons row rows)
  show ?case
  proof (cases "parse_row rt row")
    case (Inl e')
    with Cons.prems parse_row_error [OF Inl] show ?thesis by simp
  next
    case (Inr p)
    obtain a b where p: "p = (a, b)" by (cases p)
    with Cons.prems Inr Cons.IH show ?thesis by simp
  qed
qed

lemma load_specials_extends:
  "\<exists>extra. map fst (load_specials rows i n sts) = map fst sts @ extra"
proof (induction rows arbitrary: i sts)
  case Nil
  then show ?case by simp
next
  case (Cons row rows)
  obtain e1 where "map fst (load_specials rows (i + 1) n (dict_set sts row (i + 256 + n)))
       = map fst (dict_set sts row (i + 256 + n)) @ e1" using Cons.IH by blast
  moreover obtain e2 where "map fst (dict_set sts row (i + 256 + n)) = map fst sts @ e2"
    using dict_set_extends [of sts row "i + 256 + n"] by blast
  ultimately show ?case by simp
qed

lemma load_specials_other_keys:
  "s \<notin> set rows \<Longrightarrow> map_of (load_specials rows i n sts) s = map_of sts s"
  by (induction rows arbitrary: i sts) (auto simp add: map_of_dict_set)

lemma load_specials_keys:
  "fst ` set (load_specials rows i n sts) = fst ` set sts \<union> set rows"
  by (induction rows arbitrary: i sts) (auto simp add: fst_set_dict_set)

lemma set_file_pairs:
  "set (concat (map (\<lambda>row. case parse_row rt row of Inl e \<Rightarrow> [] | Inr p \<Rightarrow> [p]) rows))
     = {p. \<exists>row \<in> set rows. parse_row rt row = Inr p}"
  by (induction rows) (auto split: sum.splits)


lemma read_text_folder:
  "read_text fs folder name = Inr t \<Longrightarrow> fs folder = Some Directory"
  by (auto simp add: read_text_def open_read_def split: option.splits node.splits sum.splits)

lemma load_returned:
  assumes "load rt self fs folder = (Returned, tok)"
  obtains merges_text ms special_text v where
    "read_text fs folder merges_file = Inr merges_text"
    "load_merges rt (butlast (py_split 10 merges_text)) 0 (merges self) = (Returned, ms)"
    "read_text fs folder special_file = Inr special_text"
    "build_vocab ms (load_specials (butlast (py_split 10 special_text)) 0 (int (length ms))
        (special_tokens self)) = Inr v"
    "tok = self\<lparr>merges := ms,
            special_tokens := load_specials (butlast (py_split 10 special_text)) 0
               (int (length ms)) (special_tokens self),
            vocab := v\<rparr>"
  using assms
  by (auto simp add: load_def Let_def split: option.splits sum.splits prod.splits outcome.splits)

text \<open>
  Claim C10. A \<^verbatim>\<open>load\<close> that returns replaces neither dictionary: the keys that were
  there before stay, in their order, in front; a pair that no row of the merges file
  denotes keeps its entry (also its absence), and so does a special token that is no line
  of the special-token file; the keys afterwards are the old keys and those of the files.
  This holds on every runtime.
\<close>

theorem load_keeps_existing_entries:
  assumes "load rt self fs folder = (Returned, tok)"
  shows "(\<exists>extra. map fst (merges tok) = map fst (merges self) @ extra)
     \<and> (\<forall>k. k \<notin> set (file_pairs rt fs folder) \<longrightarrow>
           map_of (merges tok) k = map_of (merges self) k)
     \<and> fst ` set (merges tok) = fst ` set (merges self) \<union> set (file_pairs rt fs folder)
     \<and> (\<exists>extra. map fst (special_tokens tok) = map fst (special_tokens self) @ extra)
     \<and> (\<forall>s. s \<notin> set (file_rows fs folder special_file) \<longrightarrow>
           map_of (special_tokens tok) s = map_of (special_tokens self) s)
     \<and> fst ` set (special_tokens tok)
         = fst ` set (special_tokens self) \<union> set (file_rows fs folder special_file)"
proof -
  from assms obtain merges_text ms special_text v where
    mt: "read_text fs folder merges_file = Inr merges_text"
    and lm: "load_merges rt (butlast (py_split 10 merges_text)) 0 (merges self) = (Returned, ms)"
    and st: "read_text fs folder special_file = Inr special_text"
    and "build_vocab ms (load_specials (butlast (py_split 10 special_text)) 0 (int (length ms))
        (special_tokens self)) = Inr v"
    and tok: "tok = self\<lparr>merges := ms,
            special_tokens := load_specials (butlast (py_split 10 special_text)) 0
               (int (length ms)) (special_tokens self),
            vocab := v\<rparr>"
    by (rule load_returned)
  let ?rows = "butlast (py_split 10 merges_text)"
  let ?srows = "butlast (py_split 10 special_text)"
  from tok have m: "merges tok = ms"
    and s: "special_tokens tok = load_specials ?srows 0 (int (length ms)) (special_tokens self)"
    by simp_all
  from mt have "file_rows fs folder merges_file = ?rows"
    by (simp add: file_rows_def)
  then have fp: "set (file_pairs rt fs folder)
      = {p. \<exists>row \<in> set ?rows. parse_row rt row = Inr p}"
    by (simp only: file_pairs_def set_file_pairs)
  from st have fr: "file_rows fs folder special_file = ?srows"
    by (simp add: file_rows_def)
  have 1: "\<exists>extra. map fst (merges tok) = map fst (merges self) @ extra"
    using load_merges_extends [OF lm] m by simp
  have 2: "\<forall>k. k \<notin> set (file_pairs rt fs folder) \<longrightarrow>
           map_of (merges tok) k = map_of (merges self) k"
  proof (intro allI impI)
    fix k assume "k \<notin> set (file_pairs rt fs folder)"
    with fp have "\<forall>row \<in> set ?rows. parse_row rt row \<noteq> Inr k" by auto
    from load_merges_other_keys [OF lm this] m
    show "map_of (merges tok) k = map_of (merges self) k" by simp
  qed
  have 3: "fst ` set (merges tok) = fst ` set (merges self) \<union> set (file_pairs rt fs folder)"
    using load_merges_keys [OF lm] m fp by simp
  have 4: "\<exists>extra. map fst (special_tokens tok) = map fst (special_tokens self) @ extra"
    using load_specials_extends [of ?srows 0 "int (length ms)" "special_tokens self"] s by simp
  have 5: "\<forall>s. s \<notin> set (file_rows fs folder special_file) \<longrightarrow>
           map_of (special_tokens tok) s = map_of (special_tokens self) s"
    using s fr by (simp add: load_specials_other_keys)
  have 6: "fst ` set (special_tokens tok)
         = fst ` set (special_tokens self) \<union> set (file_rows fs folder special_file)"
    using s fr by (simp add: load_specials_keys)
  from 1 2 3 4 5 6 show ?thesis by blast
qed

lemma load_onto_trained:
  "load posix
     \<lparr>merges = [((97, 97), 256)], special_tokens = [], vocab = byte_vocab(256 \<mapsto> [97, 97])\<rparr>
     ((\<lambda>p. None)([] \<mapsto> Directory, [''tok''] \<mapsto> Directory,
        [''tok'', merges_file] \<mapsto> File [57, 56, 32, 57, 56, 10],
        [''tok'', special_file] \<mapsto> File []))
     [''tok'']
   = (Returned,
      \<lparr>merges = [((97, 97), 256), ((98, 98), 256)], special_tokens = [],
       vocab = byte_vocab(256 \<mapsto> [98, 98])\<rparr>)"
  by (simp add: file_eval byte_vocab_def)

lemma file_pairs_tok:
  "file_pairs posix ((\<lambda>p. None)([] \<mapsto> Directory, [''tok''] \<mapsto> Directory,
        [''tok'', merges_file] \<mapsto> File [57, 56, 32, 57, 56, 10],
        [''tok'', special_file] \<mapsto> File [])) [''tok'']
       = [(98, 98)]"
  by (simp add: file_eval)

theorem load_keeps_existing_entries_witness:
  "load posix
     \<lparr>merges = [((97, 97), 256)], special_tokens = [], vocab = byte_vocab(256 \<mapsto> [97, 97])\<rparr>
     ((\<lambda>p. None)([] \<mapsto> Directory, [''tok''] \<mapsto> Directory,
        [''tok'', merges_file] \<mapsto> File [57, 56, 32, 57, 56, 10],
        [''tok'', special_file] \<mapsto> File []))
     [''tok'']
   = (Returned,
      \<lparr>merges = [((97, 97), 256), ((98, 98), 256)], special_tokens = [],
       vocab = byte_vocab(256 \<mapsto> [98, 98])\<rparr>)
   \<and> file_pairs posix ((\<lambda>p. None)([] \<mapsto> Directory, [''tok''] \<mapsto> Directory,
        [''tok'', merges_file] \<mapsto> File [57, 56, 32, 57, 56, 10],
        [''tok'', special_file] \<mapsto> File [])) [''tok'']
       = [(98, 98)]
   \<and> map_of [((97, 97), 256), ((98, 98), 256 :: int)] (97, 97) = Some 256"
  using load_keeps_existing_entries [OF load_onto_trained]
  by (simp add: load_onto_trained file_pairs_tok)

subsection \<open>\<^verbatim>\<open>load\<close>: how it fails\<close>

lemma load_not_returned:
  assumes "fst (load rt self fs folder) \<noteq> Returned"
  shows "vocab (snd (load rt self fs folder)) = vocab self
     \<and> (\<exists>extra. map fst (merges (snd (load rt self fs folder)))
                    = map fst (merges self) @ extra)
     \<and> (\<exists>extra. map fst (special_tokens (snd (load rt self fs folder)))
                    = map fst (special_tokens self) @ extra)"
proof (cases "fs folder")
  case None
  then show ?thesis by (simp add: load_def)
next
  case (Some at_path)
  show ?thesis
  proof (cases "read_text fs folder merges_file")
    case (Inl e)
    with Some show ?thesis by (simp add: load_def)
  next
    case (Inr mt)
    obtain out ms where lm: "load_merges rt (butlast (py_split 10 mt)) 0 (merges self) = (out, ms)"
      by (cases "load_merges rt (butlast (py_split 10 mt)) 0 (merges self)")
    from load_merges_extends [OF lm] obtain ex where ex: "map fst ms = map fst (merges self) @ ex"
      by blast
    show ?thesis
    proof (cases out)
      case (Raised e)
      with Some Inr lm ex show ?thesis by (simp add: load_def)
    next
      case Returned
      show ?thesis
      proof (cases "read_text fs folder special_file")
        case (Inl e)
        with Some Inr lm Returned ex show ?thesis by (simp add: load_def)
      next
        case st: (Inr stext)
        let ?sts = "load_specials (butlast (py_split 10 stext)) 0 (int (length ms))
                      (special_tokens self)"
        from load_specials_extends [of "butlast (py_split 10 stext)" 0 "int (length ms)"
            "special_tokens self"]
        obtain ex2 where ex2: "map fst ?sts = map fst (special_tokens self) @ ex2" by blast
        show ?thesis
        proof (cases "build_vocab ms ?sts")
          case (Inl e)
          with Some Inr lm Returned st ex ex2 show ?thesis by (simp add: load_def)
        next
          case bv: (Inr v)
          with Some Inr lm Returned st have "fst (load rt self fs folder) = Returned"
            by (simp add: load_def)
          with assms show ?thesis by simp
        qed
      qed
    qed
  qed
qed

lemma load_bad_row:
  assumes "\<exists>row \<in> set (file_rows fs folder merges_file). \<exists>e. parse_row rt row = Inl e"
  shows "\<exists>msg. fst (load rt self fs folder) = Raised (ValueError msg)"
proof -
  from assms have ne: "file_rows fs folder merges_file \<noteq> []" by auto
  then obtain mt where mt: "read_text fs folder merges_file = Inr mt"
    by (cases "read_text fs folder merges_file") (auto simp add: file_rows_def)
  from read_text_folder [OF mt] have dir: "fs folder = Some Directory" .
  from mt have rows: "file_rows fs folder merges_file = butlast (py_split 10 mt)"
    by (simp add: file_rows_def)
  with assms have "\<exists>row \<in> set (butlast (py_split 10 mt)). \<exists>e. parse_row rt row = Inl e" by simp
  from load_merges_bad_row [OF this, of 0 "merges self"]
  obtain e ms where lm: "load_merges rt (butlast (py_split 10 mt)) 0 (merges self) = (Raised e, ms)"
    by blast
  from load_merges_error [OF lm] obtain msg where "e = ValueError msg" by blast
  with dir mt lm show ?thesis by (simp add: load_def)
qed

lemma load_no_special_file:
  assumes "fs folder \<noteq> None" "fs (folder @ [special_file]) = None"
  shows "fst (load rt self fs folder) \<noteq> Returned"
proof -
  from assms(2) have "\<exists>e. read_text fs folder special_file = Inl e"
    by (simp add: read_text_def open_read_def split: option.splits node.splits)
  with assms(1) show ?thesis
    by (auto simp add: load_def split: sum.splits prod.splits outcome.splits)
qed

lemma load_no_merges_file:
  assumes "fs folder = Some Directory" "fs (folder @ [merges_file]) = None"
  shows "load rt self fs folder = (Raised FileNotFoundError, self)"
proof -
  from assms have "read_text fs folder merges_file = Inl FileNotFoundError"
    by (simp add: read_text_def open_read_def)
  with assms(1) show ?thesis by (simp add: load_def)
qed

text \<open>
  Claim C9, as the code has it. \<^verbatim>\<open>load\<close> raises \<^verbatim>\<open>ValueError\<close> when nothing is at
  the path of the folder, and the error of reading the merges file when that file cannot
  be read (\<^verbatim>\<open>FileNotFoundError\<close> when it is missing, \<^verbatim>\<open>UnicodeDecodeError\<close> when
  it is not UTF-8); in these cases the object is unchanged. It does not return when the
  special-token file is missing, and raises \<^verbatim>\<open>ValueError\<close> when a row of the merges
  file is not two integers for \<^verbatim>\<open>int\<close>. After any failed call the vocabulary is the
  old one, and the old keys of both dictionaries are still there, in order, in front of
  whatever the call had assigned before it failed.
\<close>

theorem load_failures:
  "(fs folder = None \<longrightarrow>
      load rt self fs folder
        = (Raised (ValueError ''The folder that you provided does not exist''), self))
   \<and> (\<forall>e. fs folder \<noteq> None \<and> read_text fs folder merges_file = Inl e \<longrightarrow>
        load rt self fs folder = (Raised e, self))
   \<and> (fs folder = Some Directory \<and> fs (folder @ [merges_file]) = None \<longrightarrow>
        load rt self fs folder = (Raised FileNotFoundError, self))
   \<and> (fs folder \<noteq> None \<and> fs (folder @ [special_file]) = None \<longrightarrow>
        fst (load rt self fs folder) \<noteq> Returned)
   \<and> ((\<exists>row \<in> set (file_rows fs folder merges_file). \<exists>e. parse_row rt row = Inl e) \<longrightarrow>
        (\<exists>msg. fst (load rt self fs folder) = Raised (ValueError msg)))
   \<and> (fst (load rt self fs folder) \<noteq> Returned \<longrightarrow>
        vocab (snd (load rt self fs folder)) = vocab self
        \<and> (\<exists>extra. map fst (merges (snd (load rt self fs folder)))
                       = map fst (merges self) @ extra)
        \<and> (\<exists>extra. map fst (special_tokens (snd (load rt self fs folder)))
                       = map fst (special_tokens self) @ extra))"
proof (intro conjI impI allI)
  assume "fs folder = None"
  then show "load rt self fs folder
        = (Raised (ValueError ''The folder that you provided does not exist''), self)"
    by (simp add: load_def)
next
  fix e assume "fs folder \<noteq> None \<and> read_text fs folder merges_file = Inl e"
  then show "load rt self fs folder = (Raised e, self)" by (auto simp add: load_def)
next
  assume "fs folder = Some Directory \<and> fs (folder @ [merges_file]) = None"
  then show "load rt self fs folder = (Raised FileNotFoundError, self)"
    using load_no_merges_file by blast
next
  assume "fs folder \<noteq> None \<and> fs (folder @ [special_file]) = None"
  then show "fst (load rt self fs folder) \<noteq> Returned"
    using load_no_special_file by blast
next
  assume "\<exists>row \<in> set (file_rows fs folder merges_file). \<exists>e. parse_row rt row = Inl e"
  then show "\<exists>msg. fst (load rt self fs folder) = Raised (ValueError msg)"
    by (rule load_bad_row)
next
  assume a: "fst (load rt self fs folder) \<noteq> Returned"
  from load_not_returned [OF a]
  show "vocab (snd (load rt self fs folder)) = vocab self"
    and "\<exists>extra. map fst (merges (snd (load rt self fs folder)))
                       = map fst (merges self) @ extra"
    and "\<exists>extra. map fst (special_tokens (snd (load rt self fs folder)))
                       = map fst (special_tokens self) @ extra"
    by blast+
qed

lemma load_no_folder: "load rt init ((\<lambda>p. None)([] \<mapsto> Directory)) [''tok'']
    = (Raised (ValueError ''The folder that you provided does not exist''), init)"
  by (simp add: load_def)

lemma load_empty_folder:
  "load rt init ((\<lambda>p. None)([] \<mapsto> Directory, [''tok''] \<mapsto> Directory)) [''tok'']
    = (Raised FileNotFoundError, init)"
  by (simp add: load_def read_text_def open_read_def)

lemma load_invalid_utf8:
  "read_text ((\<lambda>p. None)([] \<mapsto> Directory, [''tok''] \<mapsto> Directory,
       [''tok'', merges_file] \<mapsto> File [0xFF])) [''tok''] merges_file = Inl UnicodeDecodeError"
  "load rt init ((\<lambda>p. None)([] \<mapsto> Directory, [''tok''] \<mapsto> Directory,
       [''tok'', merges_file] \<mapsto> File [0xFF])) [''tok'']
    = (Raised UnicodeDecodeError, init)"
  by (simp_all add: load_def read_text_def open_read_def utf8_decode_strict_def merges_file_def)

lemma load_merges_only:
  "load posix init ((\<lambda>p. None)([] \<mapsto> Directory, [''tok''] \<mapsto> Directory,
       [''tok'', merges_file] \<mapsto> File [57, 55, 32, 57, 55, 10])) [''tok'']
     = (Raised FileNotFoundError, init\<lparr>merges := [((97, 97), 256)]\<rparr>)"
  by (simp add: file_eval merges_init)

lemma rows_bad:
  "file_rows ((\<lambda>p. None)([] \<mapsto> Directory, [''tok''] \<mapsto> Directory,
       [''tok'', merges_file] \<mapsto> File [57, 55, 32, 57, 55, 10, 102, 111, 111, 10],
       [''tok'', special_file] \<mapsto> File []))
     [''tok''] merges_file = [[57, 55, 32, 57, 55], [102, 111, 111]]"
  "parse_row posix [102, 111, 111] = Inl (ValueError ''wrong number of values to unpack'')"
  by (simp_all add: file_eval)

lemma load_bad:
  "load posix init ((\<lambda>p. None)([] \<mapsto> Directory, [''tok''] \<mapsto> Directory,
       [''tok'', merges_file] \<mapsto> File [57, 55, 32, 57, 55, 10, 102, 111, 111, 10],
       [''tok'', special_file] \<mapsto> File []))
      [''tok'']
     = (Raised (ValueError ''wrong number of values to unpack''), init\<lparr>merges := [((97, 97), 256)]\<rparr>)"
  by (simp add: file_eval merges_init)

theorem load_failures_witness:
  "load posix init ((\<lambda>p. None)([] \<mapsto> Directory)) [''tok'']
     = (Raised (ValueError ''The folder that you provided does not exist''), init)
   \<and> read_text ((\<lambda>p. None)([] \<mapsto> Directory, [''tok''] \<mapsto> Directory,
       [''tok'', merges_file] \<mapsto> File [0xFF])) [''tok''] merges_file = Inl UnicodeDecodeError
   \<and> load posix init ((\<lambda>p. None)([] \<mapsto> Directory, [''tok''] \<mapsto> Directory,
       [''tok'', merges_file] \<mapsto> File [0xFF])) [''tok'']
       = (Raised UnicodeDecodeError, init)
   \<and> load posix init ((\<lambda>p. None)([] \<mapsto> Directory, [''tok''] \<mapsto> Directory)) [''tok'']
       = (Raised FileNotFoundError, init)
   \<and> fst (load posix init ((\<lambda>p. None)([] \<mapsto> Directory, [''tok''] \<mapsto> Directory,
       [''tok'', merges_file] \<mapsto> File [57, 55, 32, 57, 55, 10])) [''tok'']) \<noteq> Returned
   \<and> parse_row posix [102, 111, 111] = Inl (ValueError ''wrong number of values to unpack'')
   \<and> fst (load posix init ((\<lambda>p. None)([] \<mapsto> Directory, [''tok''] \<mapsto> Directory,
       [''tok'', merges_file] \<mapsto> File [57, 55, 32, 57, 55, 10, 102, 111, 111, 10],
       [''tok'', special_file] \<mapsto> File [])) [''tok''])
       = Raised (ValueError ''wrong number of values to unpack'')
   \<and> vocab (snd (load posix init ((\<lambda>p. None)([] \<mapsto> Directory, [''tok''] \<mapsto> Directory,
       [''tok'', merges_file] \<mapsto> File [57, 55, 32, 57, 55, 10, 102, 111, 111, 10],
       [''tok'', special_file] \<mapsto> File [])) [''tok''])) = vocab init
   \<and> merges (snd (load posix init ((\<lambda>p. None)([] \<mapsto> Directory, [''tok''] \<mapsto> Directory,
       [''tok'', merges_file] \<mapsto> File [57, 55, 32, 57, 55, 10, 102, 111, 111, 10],
       [''tok'', special_file] \<mapsto> File [])) [''tok''])) = [((97, 97), 256)]"
  using load_failures [of "(\<lambda>p. None)([] \<mapsto> Directory)" "[''tok'']" posix init]
    load_failures [of "(\<lambda>p. None)([] \<mapsto> Directory, [''tok''] \<mapsto> Directory,
       [''tok'', merges_file] \<mapsto> File [0xFF])" "[''tok'']" posix init]
    load_failures [of "(\<lambda>p. None)([] \<mapsto> Directory, [''tok''] \<mapsto> Directory)" "[''tok'']"
       posix init]
    load_failures [of "(\<lambda>p. None)([] \<mapsto> Directory, [''tok''] \<mapsto> Directory,
       [''tok'', merges_file] \<mapsto> File [57, 55, 32, 57, 55, 10])" "[''tok'']" posix init]
    load_failures [of "(\<lambda>p. None)([] \<mapsto> Directory, [''tok''] \<mapsto> Directory,
       [''tok'', merges_file] \<mapsto> File [57, 55, 32, 57, 55, 10, 102, 111, 111, 10],
       [''tok'', special_file] \<mapsto> File [])" "[''tok'']" posix init]
  by (simp add: load_no_folder load_empty_folder load_merges_only load_bad rows_bad
      load_invalid_utf8)

text \<open>
  Against claim C9 as stated: a folder with the merges file \<open>"97 97\n"\<close> and no
  special-token file. The call on a fresh tokenizer raises \<^verbatim>\<open>FileNotFoundError\<close>, and
  \<^verbatim>\<open>self.merges\<close>, empty before, holds the pair of the row afterwards.
\<close>

theorem load_partial_mutation:
  "fst (load posix init ((\<lambda>p. None)([] \<mapsto> Directory, [''tok''] \<mapsto> Directory,
       [''tok'', merges_file] \<mapsto> File [57, 55, 32, 57, 55, 10])) [''tok''])
     = Raised FileNotFoundError
   \<and> merges (snd (load posix init ((\<lambda>p. None)([] \<mapsto> Directory, [''tok''] \<mapsto> Directory,
       [''tok'', merges_file] \<mapsto> File [57, 55, 32, 57, 55, 10])) [''tok'']))
       = [((97, 97), 256)]
   \<and> merges init = []"
  by (simp add: load_merges_only merges_init)

subsection \<open>The file format: what \<^verbatim>\<open>load\<close> reads of what \<^verbatim>\<open>save\<close> wrote\<close>

lemma utf8_encode_append:
  "utf8_encode a = Inr x \<Longrightarrow> utf8_encode b = Inr y \<Longrightarrow> utf8_encode (a @ b) = Inr (x @ y)"
  by (induction a arbitrary: x) (auto split: sum.splits)

lemma split_loop_no_sep: "sep \<notin> set l \<Longrightarrow> split_loop sep cur l = [cur @ l]"
  by (induction l arbitrary: cur) auto

lemma split_loop_sep:
  "sep \<notin> set l \<Longrightarrow> split_loop sep cur (l @ sep # rest) = (cur @ l) # split_loop sep [] rest"
  by (induction l arbitrary: cur) auto

lemma py_split_lines:
  "\<forall>l \<in> set ls. 10 \<notin> set l \<Longrightarrow>
   py_split 10 (concat (map (\<lambda>l. l @ [10]) ls)) = ls @ [[]]"
  unfolding py_split_def
proof (induction ls)
  case Nil
  then show ?case by simp
next
  case (Cons l ls)
  then have "10 \<notin> set l" by simp
  from split_loop_sep [OF this, of "[]" "concat (map (\<lambda>l. l @ [10]) ls)"] Cons
  show ?case by simp
qed

lemma show_nat_digits: "\<forall>c \<in> set (show_nat n). 48 \<le> c \<and> c \<le> 57"
proof (induction n rule: show_nat.induct)
  case (1 n)
  show ?case
  proof (cases "n < 10")
    case True
    then show ?thesis by (subst show_nat.simps) simp
  next
    case False
    have "n mod 10 < 10" by simp
    then have "48 + n mod 10 \<le> 57" by linarith
    with False "1.IH" show ?thesis by (subst show_nat.simps) auto
  qed
qed

lemma show_nat_nonempty: "show_nat n \<noteq> []"
  by (subst show_nat.simps) simp

lemma parse_digits_digit:
  "d < 10 \<Longrightarrow>
   parse_digits rt b acc cnt ((48 + d) # rest) = parse_digits rt True (acc * 10 + d) (cnt + 1) rest"
  by (simp add: digit_value_def)

lemma parse_digits_show_nat:
  "parse_digits rt b acc cnt (show_nat n @ rest)
     = parse_digits rt True (acc * 10 ^ length (show_nat n) + n) (cnt + length (show_nat n)) rest"
proof (induction n arbitrary: b acc cnt rest rule: show_nat.induct)
  case (1 n)
  show ?case
  proof (cases "n < 10")
    case True
    then have "show_nat n = [48 + n]" by (subst show_nat.simps) simp
    with parse_digits_digit [OF True, of rt b acc cnt rest] show ?thesis by simp
  next
    case False
    then have s: "show_nat n = show_nat (n div 10) @ [48 + n mod 10]"
      by (subst show_nat.simps) simp
    have m: "n mod 10 < 10" by simp
    have "parse_digits rt b acc cnt (show_nat n @ rest)
            = parse_digits rt b acc cnt (show_nat (n div 10) @ ((48 + n mod 10) # rest))"
      by (simp add: s)
    also have "\<dots> = parse_digits rt True (acc * 10 ^ length (show_nat (n div 10)) + n div 10)
                       (cnt + length (show_nat (n div 10))) ((48 + n mod 10) # rest)"
      using "1.IH" [OF False] by simp
    also have "\<dots> = parse_digits rt True
                       ((acc * 10 ^ length (show_nat (n div 10)) + n div 10) * 10 + n mod 10)
                       (cnt + length (show_nat (n div 10)) + 1) rest"
      by (rule parse_digits_digit [OF m])
    also have "(acc * 10 ^ length (show_nat (n div 10)) + n div 10) * 10 + n mod 10
                 = acc * 10 ^ length (show_nat n) + n"
      by (simp add: s algebra_simps)
    also have "cnt + length (show_nat (n div 10)) + 1 = cnt + length (show_nat n)"
      by (simp add: s)
    finally show ?thesis .
  qed
qed

lemma parse_digits_show_nat_all:
  "parse_digits rt False 0 0 (show_nat n) = Some (n, length (show_nat n))"
  using parse_digits_show_nat [of rt False 0 0 n "[]"] by simp

lemma digit_not_space: "48 \<le> c \<Longrightarrow> c \<le> 57 \<Longrightarrow> \<not> is_space c"
  by (simp add: is_space_def)

lemma strip_id:
  assumes "s \<noteq> []" "\<not> is_space (hd s)" "\<not> is_space (last s)"
  shows "strip s = s"
proof -
  from assms have "dropWhile is_space s = s" by (cases s) auto
  moreover from assms have "dropWhile is_space (rev s) = rev s"
    by (cases "rev s") (auto simp add: hd_rev)
  ultimately show ?thesis by (simp add: strip_def)
qed

lemma strip_show_int: "strip (show_int i) = show_int i"
proof -
  let ?n = "nat (if i < 0 then - i else i)"
  have ne: "show_nat ?n \<noteq> []" by (rule show_nat_nonempty)
  have dig: "\<forall>c \<in> set (show_nat ?n). 48 \<le> c \<and> c \<le> 57" by (rule show_nat_digits)
  from ne dig have l: "\<not> is_space (last (show_nat ?n))"
    using digit_not_space last_in_set by blast
  from ne dig have h: "\<not> is_space (hd (show_nat ?n))"
    using digit_not_space hd_in_set by blast
  show ?thesis
  proof (cases "i < 0")
    case True
    then have s: "show_int i = 45 # show_nat ?n" by (simp add: show_int_def)
    have "\<not> is_space 45" by (simp add: is_space_def)
    with s ne l show ?thesis by (intro strip_id) simp_all
  next
    case False
    then have s: "show_int i = show_nat ?n" by (simp add: show_int_def)
    with ne h l show ?thesis by (intro strip_id) simp_all
  qed
qed

lemma py_int_show_int:
  assumes "\<not> over_limit rt (length (show_nat (nat \<bar>i\<bar>)))"
  shows "py_int rt (show_int i) = Inr i"
proof (cases "i < 0")
  case True
  then have n: "nat \<bar>i\<bar> = nat (- i)" by simp
  from True have "show_int i = 45 # show_nat (nat (- i))" by (simp add: show_int_def)
  with strip_show_int [of i] have st: "strip (show_int i) = 45 # show_nat (nat (- i))" by simp
  from True assms show ?thesis
    by (simp add: py_int_def st parse_digits_show_nat_all n)
next
  case False
  then have n: "nat \<bar>i\<bar> = nat i" by simp
  from False have s: "show_int i = show_nat (nat i)" by (simp add: show_int_def)
  obtain c cs where cs: "show_nat (nat i) = c # cs"
    using show_nat_nonempty [of "nat i"] by (cases "show_nat (nat i)") auto
  with show_nat_digits [of "nat i"] have "48 \<le> c" by simp
  then have c: "c \<noteq> 45" "c \<noteq> 43" by auto
  from s cs strip_show_int [of i] have st: "strip (show_int i) = c # cs" by simp
  from parse_digits_show_nat_all [of rt "nat i"] cs
  have "parse_digits rt False 0 0 (c # cs) = Some (nat i, length (c # cs))" by simp
  with False c assms show ?thesis
    by (simp add: py_int_def st n cs del: parse_digits.simps)
qed

lemma format_int_Inr:
  "format_int rt i = Inr s \<Longrightarrow> s = show_int i \<and> py_int rt (show_int i) = Inr i"
  by (auto simp add: format_int_def py_int_show_int split: if_splits)

lemma show_int_chars: "c \<in> set (show_int i) \<Longrightarrow> c = 45 \<or> (48 \<le> c \<and> c \<le> 57)"
  using show_nat_digits by (auto simp add: show_int_def split: if_splits)

lemma parse_row_shown:
  assumes "py_int rt (show_int a) = Inr a" "py_int rt (show_int b) = Inr b"
  shows "parse_row rt (show_int a @ 32 # show_int b) = Inr (a, b)"
proof -
  have na: "32 \<notin> set (show_int a)" using show_int_chars [of 32 a] by auto
  have nb: "32 \<notin> set (show_int b)" using show_int_chars [of 32 b] by auto
  have "py_split 32 (show_int a @ 32 # show_int b) = [show_int a, show_int b]"
    using split_loop_sep [OF na, of "[]" "show_int b"] split_loop_no_sep [OF nb, of "[]"]
    by (simp add: py_split_def)
  then show ?thesis by (simp add: parse_row_def assms)
qed

lemma load_merges_shown:
  "distinct (map fst ms @ keys) \<Longrightarrow>
   \<forall>(a, b) \<in> set keys. py_int rt (show_int a) = Inr a \<and> py_int rt (show_int b) = Inr b \<Longrightarrow>
   load_merges rt (map (\<lambda>(idx1, idx2). show_int idx1 @ [32] @ show_int idx2) keys) i ms
     = (Returned, ms @ zip keys (map (\<lambda>j. i + 256 + int j) [0..<length keys]))"
proof (induction keys arbitrary: i ms)
  case Nil
  then show ?case by simp
next
  case (Cons k keys)
  obtain a b where k: "k = (a, b)" by (cases k)
  from Cons.prems have new: "(a, b) \<notin> fst ` set ms" using k by auto
  from Cons.prems have d: "distinct (map fst (ms @ [((a, b), i + 256)]) @ keys)"
    using k by auto
  from Cons.prems(2) k have row: "parse_row rt (show_int a @ 32 # show_int b) = Inr (a, b)"
    by (intro parse_row_shown) auto
  from Cons.prems(2) have rest: "\<forall>(a, b) \<in> set keys.
      py_int rt (show_int a) = Inr a \<and> py_int rt (show_int b) = Inr b" by simp
  have z: "zip (k # keys) (map (\<lambda>j. i + 256 + int j) [0..<length (k # keys)])
             = (k, i + 256) # zip keys (map (\<lambda>j. (i + 1) + 256 + int j) [0..<length keys])"
    by (simp add: map_upt_Suc algebra_simps del: upt_Suc)
  from Cons.IH [OF d rest, of "i + 1"] new k z row show ?case
    by (simp add: dict_set_new del: upt_Suc)
qed

lemma load_specials_shown:
  "distinct (map fst sts @ keys) \<Longrightarrow>
   load_specials keys i n sts
     = sts @ zip keys (map (\<lambda>j. i + 256 + n + int j) [0..<length keys])"
proof (induction keys arbitrary: i sts)
  case Nil
  then show ?case by simp
next
  case (Cons k keys)
  from Cons.prems have new: "k \<notin> fst ` set sts" by auto
  from Cons.prems have d: "distinct (map fst (sts @ [(k, i + 256 + n)]) @ keys)" by auto
  have z: "zip (k # keys) (map (\<lambda>j. i + 256 + n + int j) [0..<length (k # keys)])
             = (k, i + 256 + n) # zip keys (map (\<lambda>j. (i + 1) + 256 + n + int j) [0..<length keys])"
    by (simp add: map_upt_Suc algebra_simps del: upt_Suc)
  from Cons.IH [OF d, of "i + 1"] new z show ?case
    by (simp add: dict_set_new del: upt_Suc)
qed

lemma zip_fst_snd: "zip (map fst xs) (map snd xs) = xs"
  by (induction xs) auto

lemma build_specials_encodable:
  "build_specials sts voc = Inr v \<Longrightarrow> \<forall>s \<in> fst ` set sts. \<exists>bs. utf8_encode s = Inr bs"
  by (induction sts voc rule: build_specials.induct) (auto split: sum.splits)

lemma utf8_encode_ascii: "\<forall>c \<in> set s. c < 0x80 \<Longrightarrow> \<exists>bs. utf8_encode s = Inr bs"
  by (induction s) (auto simp add: utf8_encode_char_def)

lemma merge_lines_split:
  "butlast (py_split 10
      (concat (map (\<lambda>(idx1, idx2). show_int idx1 @ [32] @ show_int idx2 @ [10]) keys)))
     = map (\<lambda>(idx1, idx2). show_int idx1 @ [32] @ show_int idx2) keys"
proof -
  let ?rows = "map (\<lambda>(idx1, idx2). show_int idx1 @ [32] @ show_int idx2) keys"
  have e: "map (\<lambda>(idx1, idx2). show_int idx1 @ [32] @ show_int idx2 @ [10]) keys
             = map (\<lambda>l. l @ [10]) ?rows"
    by (simp add: case_prod_unfold)
  have "\<forall>l \<in> set ?rows. 10 \<notin> set l"
  proof
    fix l assume "l \<in> set ?rows"
    then obtain a b where "l = show_int a @ [32] @ show_int b" by auto
    then show "10 \<notin> set l" using show_int_chars [of 10 a] show_int_chars [of 10 b] by auto
  qed
  from py_split_lines [OF this] show ?thesis by (simp only: e butlast_snoc)
qed

lemma merge_lines_no_cr:
  "13 \<notin> set (concat (map (\<lambda>(idx1, idx2). show_int idx1 @ [32] @ show_int idx2 @ [10]) keys))"
proof
  assume "13 \<in> set (concat (map (\<lambda>(idx1, idx2). show_int idx1 @ [32] @ show_int idx2 @ [10]) keys))"
  then obtain a b where "13 \<in> set (show_int a @ [32] @ show_int b @ [10])" by auto
  then show False using show_int_chars [of 13 a] show_int_chars [of 13 b] by auto
qed


lemma translate_newlines_append:
  "translate_newlines sep (a @ b) = translate_newlines sep a @ translate_newlines sep b"
  by (simp add: translate_newlines_def)

lemma write_merges_returned:
  "write_merges rt keys w = (Returned, w') \<Longrightarrow>
   w' = w @ translate_newlines (linesep rt)
             (concat (map (\<lambda>(idx1, idx2). show_int idx1 @ [32] @ show_int idx2 @ [10]) keys))
   \<and> (\<forall>(a, b) \<in> set keys. py_int rt (show_int a) = Inr a \<and> py_int rt (show_int b) = Inr b)"
proof (induction keys arbitrary: w)
  case Nil
  then show ?case by (simp add: translate_newlines_def)
next
  case (Cons k keys)
  obtain a b where k: "k = (a, b)" by (cases k)
  from Cons.prems k obtain s1 s2 w1 where f: "format_int rt a = Inr s1" "format_int rt b = Inr s2"
    and fw: "file_write rt w (s1 @ [32] @ s2 @ [10]) = Inr w1"
    and rest: "write_merges rt keys w1 = (Returned, w')"
    by (auto split: sum.splits)
  from format_int_Inr [OF f(1)] format_int_Inr [OF f(2)]
  have s: "s1 = show_int a" "s2 = show_int b"
    and p: "py_int rt (show_int a) = Inr a" "py_int rt (show_int b) = Inr b" by simp_all
  from fw have w1: "w1 = w @ translate_newlines (linesep rt) (s1 @ [32] @ s2 @ [10])"
    by (auto simp add: file_write_def Let_def split: sum.splits)
  from Cons.IH [OF rest] w1 s p k show ?case
    by (simp add: translate_newlines_def)
qed

lemma write_specials_returned:
  "write_specials rt keys w = (Returned, w') \<Longrightarrow>
   w' = w @ translate_newlines (linesep rt) (concat (map (\<lambda>s. s @ [10]) keys))"
proof (induction keys arbitrary: w)
  case Nil
  then show ?case by (simp add: translate_newlines_def)
next
  case (Cons k keys)
  from Cons.prems obtain w1 where fw: "file_write rt w (k @ [10]) = Inr w1"
    and rest: "write_specials rt keys w1 = (Returned, w')"
    by (auto split: sum.splits)
  from fw have w1: "w1 = w @ translate_newlines (linesep rt) (k @ [10])"
    by (auto simp add: file_write_def Let_def split: sum.splits)
  from Cons.IH [OF rest] w1 show ?case by (simp add: translate_newlines_def)
qed

lemma newline_loop_no_lf: "10 \<notin> set s \<Longrightarrow> newline_loop b s = newline_loop False s"
  by (cases s) auto

lemma universal_translate:
  assumes "13 \<notin> set t" "sep = [10] \<or> sep = [13, 10]"
  shows "universal_newlines (translate_newlines sep t) = t"
  unfolding universal_newlines_def translate_newlines_def
  using assms by (induction t) auto

lemma set_translate_newlines:
  "set (translate_newlines sep t) \<subseteq> set t \<union> set sep"
  by (auto simp add: translate_newlines_def split: if_splits)

lemma open_write_Inr:
  "open_write fs dir name = Inr fs2 \<Longrightarrow>
   fs dir = Some Directory \<and> fs2 = fs(dir @ [name] \<mapsto> File [])"
  by (auto simp add: open_write_def split: option.splits node.splits)

lemma mkdir_Inr: "mkdir fs p = Inr fs1 \<Longrightarrow> fs1 = fs(p \<mapsto> Directory)"
  by (auto simp add: mkdir_def split: option.splits node.splits if_splits)

lemma save_returned:
  assumes "save rt self fs folder = (Returned, fs')"
  obtains wm ws where
    "write_merges rt (map fst (merges self)) [] = (Returned, wm)"
    "write_specials rt (map fst (special_tokens self)) [] = (Returned, ws)"
    "fs' folder = Some Directory"
    "fs' (folder @ [merges_file]) = Some (File (file_close rt wm))"
    "fs' (folder @ [special_file]) = Some (File (file_close rt ws))"
proof -
  from assms obtain fs1 fs2 wm fs4 ws where
    1: "(if fs folder = None then mkdir fs folder else Inr fs) = Inr fs1"
    and 2: "open_write fs1 folder merges_file = Inr fs2"
    and 3: "write_merges rt (map fst (merges self)) [] = (Returned, wm)"
    and 4: "open_write (fs2(folder @ [merges_file] \<mapsto> File (file_close rt wm))) folder
              special_file = Inr fs4"
    and 5: "write_specials rt (map fst (special_tokens self)) [] = (Returned, ws)"
    and 6: "fs' = fs4(folder @ [special_file] \<mapsto> File (file_close rt ws))"
    by (auto simp add: save_def Let_def split: sum.splits prod.splits outcome.splits)
  from open_write_Inr [OF 2] have a: "fs1 folder = Some Directory"
    and b: "fs2 = fs1(folder @ [merges_file] \<mapsto> File [])" by simp_all
  from open_write_Inr [OF 4]
  have c: "fs4 = (fs2(folder @ [merges_file] \<mapsto> File (file_close rt wm)))
                   (folder @ [special_file] \<mapsto> File [])" by simp
  have ne: "merges_file \<noteq> special_file" by (simp add: merges_file_def special_file_def)
  from a b c 6 have "fs' folder = Some Directory" by simp
  moreover from b c 6 ne have "fs' (folder @ [merges_file]) = Some (File (file_close rt wm))"
    by simp
  moreover from 6 have "fs' (folder @ [special_file]) = Some (File (file_close rt ws))" by simp
  ultimately show ?thesis using 3 5 that by blast
qed

lemma read_text_closed:
  assumes "fs folder = Some Directory" "fs (folder @ [name]) = Some (File (file_close rt w))"
    and "default_encode rt w = utf8_encode w" "utf8_encode w = Inr bs"
  shows "read_text fs folder name = Inr (universal_newlines w)"
proof (cases "w = []")
  case True
  with assms(1,2) show ?thesis
    by (simp add: read_text_def open_read_def file_close_def utf8_decode_strict_def
        universal_newlines_def)
next
  case False
  with assms(3,4) have "file_close rt w = bs" by (simp add: file_close_def)
  with assms(1,2) utf8_decode_encode(2) [OF assms(4)] show ?thesis
    by (simp add: read_text_def open_read_def)
qed

subsection \<open>\<^verbatim>\<open>save\<close> followed by \<^verbatim>\<open>load\<close>\<close>

lemma utf8_encode_chars:
  "(\<exists>bs. utf8_encode t = Inr bs) \<longleftrightarrow> (\<forall>c \<in> set t. \<exists>e. utf8_encode_char c = Inr e)"
  by (induction t) (auto split: sum.splits)

lemma utf8_encode_char_ascii: "c < 0x80 \<Longrightarrow> \<exists>e. utf8_encode_char c = Inr e"
  by (simp add: utf8_encode_char_def)

lemma merge_lines_ascii:
  "c \<in> set (concat (map (\<lambda>(idx1, idx2). show_int idx1 @ [32] @ show_int idx2 @ [10]) keys))
   \<Longrightarrow> c < 0x80"
proof -
  assume "c \<in> set (concat (map (\<lambda>(idx1, idx2). show_int idx1 @ [32] @ show_int idx2 @ [10]) keys))"
  then obtain a b where "c \<in> set (show_int a @ [32] @ show_int b @ [10])" by auto
  then have "c \<in> set (show_int a) \<or> c = 32 \<or> c \<in> set (show_int b) \<or> c = 10" by auto
  then show "c < 0x80" using show_int_chars [of c a] show_int_chars [of c b] by auto
qed

text \<open>
  Claim C2, as the code has it. Let \<^verbatim>\<open>save\<close> return, on a runtime whose default
  encoding encodes every text of ASCII characters and of characters of the special tokens
  as UTF-8 does, and whose line separator is \<open>"\n"\<close> or \<open>"\r\n"\<close>. Let the merge IDs
  be positional (the \<open>j\<close>-th merge has ID \<open>256 + j\<close>), the special-token IDs be
  \<open>256 + merge_count + j\<close>, no special-token string contain a line feed or a
  carriage return, and let \<^verbatim>\<open>_build_vocab\<close> build the vocabulary \<open>v\<close> from the two
  dictionaries. Then \<^verbatim>\<open>load\<close> of the saved folder into a fresh tokenizer returns: the
  merges and the special tokens are those saved, in the same order with the same IDs,
  \<^verbatim>\<open>encode\<close> agrees with the original on every input, and the vocabulary is
  \<open>v\<close>; when \<open>v\<close> is the vocabulary of the original, the loaded object is the
  original, and so \<^verbatim>\<open>decode\<close> agrees as well. The vocabulary of the original is not
  \<open>v\<close> right after \<^verbatim>\<open>add_special_token\<close>, which leaves it as it was.
\<close>

theorem save_load_roundtrip:
  assumes saved: "save rt self fs folder = (Returned, fs')"
    and dm: "distinct (map fst (merges self))"
    and vm: "map snd (merges self) = map (\<lambda>j. 256 + int j) [0..<length (merges self)]"
    and ds: "distinct (map fst (special_tokens self))"
    and vs: "map snd (special_tokens self)
               = map (\<lambda>j. 256 + int (length (merges self)) + int j)
                   [0..<length (special_tokens self)]"
    and nl: "\<forall>s \<in> fst ` set (special_tokens self). 10 \<notin> set s \<and> 13 \<notin> set s"
    and enc: "\<forall>t. (\<forall>c \<in> set t. c < 0x80 \<or> (\<exists>s \<in> fst ` set (special_tokens self). c \<in> set s))
                 \<longrightarrow> default_encode rt t = utf8_encode t"
    and sep: "linesep rt = [10] \<or> linesep rt = [13, 10]"
    and bv: "build_vocab (merges self) (special_tokens self) = Inr v"
  shows "\<exists>tok. load rt init fs' folder = (Returned, tok)
           \<and> merges tok = merges self \<and> special_tokens tok = special_tokens self
           \<and> vocab tok = v
           \<and> (\<forall>T. encode tok T = encode self T)
           \<and> (vocab self = v \<longrightarrow> tok = self)"
proof -
  let ?keys = "map fst (merges self)"
  let ?skeys = "map fst (special_tokens self)"
  let ?mtext = "concat (map (\<lambda>(idx1, idx2). show_int idx1 @ [32] @ show_int idx2 @ [10]) ?keys)"
  let ?stext = "concat (map (\<lambda>special_token. special_token @ [10]) ?skeys)"
  from saved obtain wm ws where
    wm: "write_merges rt ?keys [] = (Returned, wm)"
    and ws: "write_specials rt ?skeys [] = (Returned, ws)"
    and dir: "fs' folder = Some Directory"
    and fm: "fs' (folder @ [merges_file]) = Some (File (file_close rt wm))"
    and fsp: "fs' (folder @ [special_file]) = Some (File (file_close rt ws))"
    by (rule save_returned)
  from write_merges_returned [OF wm]
  have wm_eq: "wm = translate_newlines (linesep rt) ?mtext"
    and ints: "\<forall>(a, b) \<in> set ?keys. py_int rt (show_int a) = Inr a \<and> py_int rt (show_int b) = Inr b"
    by simp_all
  from write_specials_returned [OF ws]
  have ws_eq: "ws = translate_newlines (linesep rt) ?stext" by simp
  have sep_ascii: "\<forall>c \<in> set (linesep rt). c < 0x80" using sep by auto
  have wm_ascii: "\<forall>c \<in> set wm. c < 0x80"
  proof
    fix c assume c: "c \<in> set wm"
    have "set wm \<subseteq> set ?mtext \<union> set (linesep rt)"
      unfolding wm_eq by (rule set_translate_newlines)
    with c have "c \<in> set ?mtext \<or> c \<in> set (linesep rt)" by blast
    with merge_lines_ascii [of c ?keys] sep_ascii show "c < 0x80" by blast
  qed
  with enc have em: "default_encode rt wm = utf8_encode wm" by simp
  from utf8_encode_ascii [OF wm_ascii] obtain mb where mb: "utf8_encode wm = Inr mb" by blast
  have "universal_newlines (translate_newlines (linesep rt) ?mtext) = ?mtext"
    by (rule universal_translate [OF merge_lines_no_cr sep])
  with read_text_closed [OF dir fm em mb]
  have rm: "read_text fs' folder merges_file = Inr ?mtext" by (simp only: wm_eq)
  from bv obtain v0 where "build_specials (special_tokens self) v0 = Inr v"
    by (auto simp add: build_vocab_def split: sum.splits)
  from build_specials_encodable [OF this]
  have encodable: "\<forall>s \<in> fst ` set (special_tokens self). \<exists>bs. utf8_encode s = Inr bs" .
  have ws_chars: "\<forall>c \<in> set ws. c < 0x80 \<or> (\<exists>s \<in> fst ` set (special_tokens self). c \<in> set s)"
  proof
    fix c assume c: "c \<in> set ws"
    have "set ws \<subseteq> set ?stext \<union> set (linesep rt)"
      unfolding ws_eq by (rule set_translate_newlines)
    with c have "c \<in> set ?stext \<or> c \<in> set (linesep rt)" by blast
    moreover have "c = 10 \<or> (\<exists>s \<in> fst ` set (special_tokens self). c \<in> set s)"
      if "c \<in> set ?stext" using that by (auto split: if_splits)
    ultimately show "c < 0x80 \<or> (\<exists>s \<in> fst ` set (special_tokens self). c \<in> set s)"
      using sep_ascii by auto
  qed
  with enc have es: "default_encode rt ws = utf8_encode ws" by simp
  have "\<forall>c \<in> set ws. \<exists>e. utf8_encode_char c = Inr e"
  proof
    fix c assume "c \<in> set ws"
    with ws_chars have "c < 0x80 \<or> (\<exists>s \<in> fst ` set (special_tokens self). c \<in> set s)" by simp
    then show "\<exists>e. utf8_encode_char c = Inr e"
    proof
      assume "c < 0x80"
      then show ?thesis by (rule utf8_encode_char_ascii)
    next
      assume "\<exists>s \<in> fst ` set (special_tokens self). c \<in> set s"
      then obtain s where s: "s \<in> fst ` set (special_tokens self)" "c \<in> set s" by blast
      with encodable have "\<exists>bs. utf8_encode s = Inr bs" by blast
      with s(2) show ?thesis using utf8_encode_chars [of s] by blast
    qed
  qed
  then obtain sb where sb: "utf8_encode ws = Inr sb" using utf8_encode_chars [of ws] by blast
  have "13 \<notin> set ?stext" using nl by auto
  then have "universal_newlines (translate_newlines (linesep rt) ?stext) = ?stext"
    using sep by (rule universal_translate)
  with read_text_closed [OF dir fsp es sb]
  have rs: "read_text fs' folder special_file = Inr ?stext" by (simp only: ws_eq)
  have rows: "butlast (py_split 10 ?mtext)
                = map (\<lambda>(idx1, idx2). show_int idx1 @ [32] @ show_int idx2) ?keys"
    by (rule merge_lines_split)
  have "\<forall>l \<in> set ?skeys. 10 \<notin> set l" using nl by auto
  from py_split_lines [OF this] have srows: "butlast (py_split 10 ?stext) = ?skeys"
    by simp
  have "zip ?keys (map (\<lambda>j. 0 + 256 + int j) [0..<length ?keys]) = merges self"
    using vm zip_fst_snd [of "merges self"] by simp
  with load_merges_shown [of "[]" ?keys rt 0] dm ints
  have lm: "load_merges rt (map (\<lambda>(idx1, idx2). show_int idx1 @ [32] @ show_int idx2) ?keys) 0 []
              = (Returned, merges self)" by simp
  have "zip ?skeys (map (\<lambda>j. 0 + 256 + int (length (merges self)) + int j) [0..<length ?skeys])
          = special_tokens self"
    using vs zip_fst_snd [of "special_tokens self"] by simp
  with load_specials_shown [of "[]" ?skeys 0 "int (length (merges self))"] ds
  have ls: "load_specials ?skeys 0 (int (length (merges self))) [] = special_tokens self"
    by simp
  have "load rt init fs' folder
          = (Returned, init\<lparr>merges := merges self, special_tokens := special_tokens self,
                            vocab := v\<rparr>)"
    unfolding load_def
    by (simp only: dir option.case sum.case rm rs rows srows merges_init
        special_tokens_init lm ls bv Let_def prod.case outcome.case)
  moreover have "init\<lparr>merges := merges self, special_tokens := special_tokens self,
                            vocab := v\<rparr> = self\<lparr>vocab := v\<rparr>"
    by (simp add: init_def)
  ultimately have l: "load rt init fs' folder = (Returned, self\<lparr>vocab := v\<rparr>)" by simp
  have "merges (self\<lparr>vocab := v\<rparr>) = merges self" by simp
  then have "\<forall>T. encode (self\<lparr>vocab := v\<rparr>) T = encode self T"
    by (simp add: encode_def cong: sum.case_cong)
  moreover have "vocab self = v \<longrightarrow> self\<lparr>vocab := v\<rparr> = self" by auto
  ultimately show ?thesis using l by simp
qed

lemma utf8_encode_ascii_map: "\<forall>c \<in> set t. c < 0x80 \<Longrightarrow> utf8_encode t = Inr (map of_nat t)"
  by (induction t) (auto simp add: utf8_encode_char_def)

lemma save_example:
  "save posix \<lparr>merges = [((97, 97), 256)], special_tokens = [([60, 115, 62], 257)],
         vocab = byte_vocab(256 \<mapsto> [97, 97])\<rparr>
     ((\<lambda>p. None)([] \<mapsto> Directory)) [''tok'']
   = (Returned,
      (\<lambda>p. None)([] \<mapsto> Directory, [''tok''] \<mapsto> Directory,
        [''tok'', merges_file] \<mapsto> File [57, 55, 32, 57, 55, 10],
        [''tok'', special_file] \<mapsto> File [60, 115, 62, 10]))"
  by (simp add: file_eval show_nat.simps)

lemma save_example_crlf:
  "save crlf_ascii \<lparr>merges = [((97, 97), 256)], special_tokens = [([60, 115, 62], 257)],
         vocab = byte_vocab(256 \<mapsto> [97, 97])\<rparr>
     ((\<lambda>p. None)([] \<mapsto> Directory)) [''tok'']
   = (Returned,
      (\<lambda>p. None)([] \<mapsto> Directory, [''tok''] \<mapsto> Directory,
        [''tok'', merges_file] \<mapsto> File [57, 55, 32, 57, 55, 13, 10],
        [''tok'', special_file] \<mapsto> File [60, 115, 62, 13, 10]))"
  by (simp add: file_eval show_nat.simps crlf_ascii_def)

text \<open>
  \<^verbatim>\<open>save\<close> does not make the parents of the folder: with a missing parent it raises
  \<^verbatim>\<open>FileNotFoundError\<close> and writes nothing.
\<close>

lemma save_no_parent:
  "save rt self ((\<lambda>p. None)([] \<mapsto> Directory)) [''runs'', ''tok'']
     = (Raised FileNotFoundError, (\<lambda>p. None)([] \<mapsto> Directory))"
  by (simp add: save_def mkdir_def)

theorem save_load_roundtrip_witness:
  "save posix \<lparr>merges = [((97, 97), 256)], special_tokens = [([60, 115, 62], 257)],
         vocab = byte_vocab(256 \<mapsto> [97, 97])\<rparr>
     ((\<lambda>p. None)([] \<mapsto> Directory)) [''tok'']
   = (Returned,
      (\<lambda>p. None)([] \<mapsto> Directory, [''tok''] \<mapsto> Directory,
        [''tok'', merges_file] \<mapsto> File [57, 55, 32, 57, 55, 10],
        [''tok'', special_file] \<mapsto> File [60, 115, 62, 10]))
   \<and> build_vocab [((97, 97), 256)] [([60, 115, 62], 257)]
     = Inr (byte_vocab(256 \<mapsto> [97, 97], 257 \<mapsto> [60, 115, 62]))
   \<and> load posix init
        ((\<lambda>p. None)([] \<mapsto> Directory, [''tok''] \<mapsto> Directory,
          [''tok'', merges_file] \<mapsto> File [57, 55, 32, 57, 55, 10],
          [''tok'', special_file] \<mapsto> File [60, 115, 62, 10])) [''tok'']
     = (Returned,
        \<lparr>merges = [((97, 97), 256)], special_tokens = [([60, 115, 62], 257)],
         vocab = byte_vocab(256 \<mapsto> [97, 97], 257 \<mapsto> [60, 115, 62])\<rparr>)
   \<and> save crlf_ascii \<lparr>merges = [((97, 97), 256)], special_tokens = [([60, 115, 62], 257)],
         vocab = byte_vocab(256 \<mapsto> [97, 97])\<rparr>
     ((\<lambda>p. None)([] \<mapsto> Directory)) [''tok'']
   = (Returned,
      (\<lambda>p. None)([] \<mapsto> Directory, [''tok''] \<mapsto> Directory,
        [''tok'', merges_file] \<mapsto> File [57, 55, 32, 57, 55, 13, 10],
        [''tok'', special_file] \<mapsto> File [60, 115, 62, 13, 10]))
   \<and> load crlf_ascii init
        ((\<lambda>p. None)([] \<mapsto> Directory, [''tok''] \<mapsto> Directory,
          [''tok'', merges_file] \<mapsto> File [57, 55, 32, 57, 55, 13, 10],
          [''tok'', special_file] \<mapsto> File [60, 115, 62, 13, 10])) [''tok'']
     = (Returned,
        \<lparr>merges = [((97, 97), 256)], special_tokens = [([60, 115, 62], 257)],
         vocab = byte_vocab(256 \<mapsto> [97, 97], 257 \<mapsto> [60, 115, 62])\<rparr>)"
proof -
  let ?S = "\<lparr>merges = [((97, 97), 256)], special_tokens = [([60, 115, 62], 257)],
         vocab = byte_vocab(256 \<mapsto> [97, 97])\<rparr>"
  let ?v = "byte_vocab(256 \<mapsto> [97, 97], 257 \<mapsto> [60, 115, 62])"
  have bv: "build_vocab [((97, 97), 256)] [([60, 115, 62], 257)] = Inr ?v"
    by (simp add: build_vocab_def byte_vocab_def utf8_encode_char_def)
  have 1: "distinct (map fst (merges ?S))" by simp
  have 2: "map snd (merges ?S) = map (\<lambda>j. 256 + int j) [0..<length (merges ?S)]" by simp
  have 3: "distinct (map fst (special_tokens ?S))" by simp
  have 4: "map snd (special_tokens ?S)
               = map (\<lambda>j. 256 + int (length (merges ?S)) + int j)
                   [0..<length (special_tokens ?S)]" by simp
  have 5: "\<forall>s \<in> fst ` set (special_tokens ?S). 10 \<notin> set s \<and> 13 \<notin> set s" by simp
  have 6: "\<forall>t. (\<forall>c \<in> set t. c < 0x80 \<or> (\<exists>s \<in> fst ` set (special_tokens ?S). c \<in> set s))
                 \<longrightarrow> default_encode posix t = utf8_encode t"
    by (simp add: posix_def)
  have enc_crlf: "\<forall>t. (\<forall>c \<in> set t. c < 0x80 \<or> (\<exists>s \<in> fst ` set (special_tokens ?S). c \<in> set s))
                 \<longrightarrow> default_encode crlf_ascii t = utf8_encode t"
  proof (intro allI impI)
    fix t :: str
    assume "\<forall>c \<in> set t. c < 0x80 \<or> (\<exists>s \<in> fst ` set (special_tokens ?S). c \<in> set s)"
    then have a: "\<forall>c \<in> set t. c < 0x80" by auto
    from utf8_encode_ascii_map [OF a] a show "default_encode crlf_ascii t = utf8_encode t"
      by (simp add: crlf_ascii_def)
  qed
  have 7: "linesep posix = [10] \<or> linesep posix = [13, 10]" by (simp add: posix_def)
  have sep_crlf: "linesep crlf_ascii = [10] \<or> linesep crlf_ascii = [13, 10]"
    by (simp add: crlf_ascii_def)
  have 8: "build_vocab (merges ?S) (special_tokens ?S) = Inr ?v" using bv by simp
  from save_load_roundtrip [OF save_example 1 2 3 4 5 6 7 8]
  obtain tok where "load posix init
        ((\<lambda>p. None)([] \<mapsto> Directory, [''tok''] \<mapsto> Directory,
          [''tok'', merges_file] \<mapsto> File [57, 55, 32, 57, 55, 10],
          [''tok'', special_file] \<mapsto> File [60, 115, 62, 10])) [''tok''] = (Returned, tok)"
    and "merges tok = merges ?S" "special_tokens tok = special_tokens ?S" "vocab tok = ?v"
    by blast
  then have a: "load posix init
        ((\<lambda>p. None)([] \<mapsto> Directory, [''tok''] \<mapsto> Directory,
          [''tok'', merges_file] \<mapsto> File [57, 55, 32, 57, 55, 10],
          [''tok'', special_file] \<mapsto> File [60, 115, 62, 10])) [''tok'']
     = (Returned,
        \<lparr>merges = [((97, 97), 256)], special_tokens = [([60, 115, 62], 257)], vocab = ?v\<rparr>)"
    by (cases tok) simp
  from save_load_roundtrip [OF save_example_crlf 1 2 3 4 5 enc_crlf sep_crlf 8]
  obtain tok' where "load crlf_ascii init
        ((\<lambda>p. None)([] \<mapsto> Directory, [''tok''] \<mapsto> Directory,
          [''tok'', merges_file] \<mapsto> File [57, 55, 32, 57, 55, 13, 10],
          [''tok'', special_file] \<mapsto> File [60, 115, 62, 13, 10])) [''tok''] = (Returned, tok')"
    and "merges tok' = merges ?S" "special_tokens tok' = special_tokens ?S" "vocab tok' = ?v"
    by blast
  then have b: "load crlf_ascii init
        ((\<lambda>p. None)([] \<mapsto> Directory, [''tok''] \<mapsto> Directory,
          [''tok'', merges_file] \<mapsto> File [57, 55, 32, 57, 55, 13, 10],
          [''tok'', special_file] \<mapsto> File [60, 115, 62, 13, 10])) [''tok'']
     = (Returned,
        \<lparr>merges = [((97, 97), 256)], special_tokens = [([60, 115, 62], 257)], vocab = ?v\<rparr>)"
    by (cases tok') simp
  from save_example bv a save_example_crlf b show ?thesis by simp
qed

lemma save_collided:
  "save posix \<lparr>merges = [((97, 97), 256), ((98, 98), 256)], special_tokens = [],
         vocab = byte_vocab(256 \<mapsto> [98, 98])\<rparr>
     ((\<lambda>p. None)([] \<mapsto> Directory)) [''out'']
   = (Returned,
      (\<lambda>p. None)([] \<mapsto> Directory, [''out''] \<mapsto> Directory,
        [''out'', merges_file] \<mapsto> File [57, 55, 32, 57, 55, 10, 57, 56, 32, 57, 56, 10],
        [''out'', special_file] \<mapsto> File []))"
  by (simp add: file_eval show_nat.simps)

lemma load_collided:
  "load posix init
      ((\<lambda>p. None)([] \<mapsto> Directory, [''out''] \<mapsto> Directory,
        [''out'', merges_file] \<mapsto> File [57, 55, 32, 57, 55, 10, 57, 56, 32, 57, 56, 10],
        [''out'', special_file] \<mapsto> File [])) [''out'']
   = (Returned,
      \<lparr>merges = [((97, 97), 256), ((98, 98), 257)], special_tokens = [],
       vocab = byte_vocab(256 \<mapsto> [97, 97], 257 \<mapsto> [98, 98])\<rparr>)"
  by (simp add: file_eval byte_vocab_def init_def)

text \<open>
  Against claim C2 as stated. Train on \<open>"aa"\<close> with \<open>vocab_size = 257\<close>, then
  \<^verbatim>\<open>load\<close> a folder whose merges file is \<open>"98 98\n"\<close>: the tokenizer has the merges
  \<open>(97, 97) \<mapsto> 256\<close> and \<open>(98, 98) \<mapsto> 256\<close>. \<^verbatim>\<open>save\<close> writes the two pairs
  without their IDs, and \<^verbatim>\<open>load\<close> into a fresh tokenizer numbers them by line:
  \<open>(98, 98)\<close> comes back as 257, and \<open>"bb"\<close> encodes to \<open>[257]\<close>, not to
  \<open>[256]\<close>.
\<close>

theorem save_load_renumbers:
  "merges (snd (load posix (snd (train init [97, 97] 257))
      ((\<lambda>p. None)([] \<mapsto> Directory, [''tok''] \<mapsto> Directory,
        [''tok'', merges_file] \<mapsto> File [57, 56, 32, 57, 56, 10],
        [''tok'', special_file] \<mapsto> File []))
      [''tok''])) = [((97, 97), 256), ((98, 98), 256)]
   \<and> fst (save posix (snd (load posix (snd (train init [97, 97] 257))
      ((\<lambda>p. None)([] \<mapsto> Directory, [''tok''] \<mapsto> Directory,
        [''tok'', merges_file] \<mapsto> File [57, 56, 32, 57, 56, 10],
        [''tok'', special_file] \<mapsto> File []))
      [''tok''])) ((\<lambda>p. None)([] \<mapsto> Directory)) [''out'']) = Returned
   \<and> fst (load posix init (snd (save posix (snd (load posix (snd (train init [97, 97] 257))
      ((\<lambda>p. None)([] \<mapsto> Directory, [''tok''] \<mapsto> Directory,
        [''tok'', merges_file] \<mapsto> File [57, 56, 32, 57, 56, 10],
        [''tok'', special_file] \<mapsto> File []))
      [''tok''])) ((\<lambda>p. None)([] \<mapsto> Directory)) [''out''])) [''out'']) = Returned
   \<and> merges (snd (load posix init (snd (save posix (snd (load posix (snd (train init [97, 97] 257))
      ((\<lambda>p. None)([] \<mapsto> Directory, [''tok''] \<mapsto> Directory,
        [''tok'', merges_file] \<mapsto> File [57, 56, 32, 57, 56, 10],
        [''tok'', special_file] \<mapsto> File []))
      [''tok''])) ((\<lambda>p. None)([] \<mapsto> Directory)) [''out''])) [''out'']))
       = [((97, 97), 256), ((98, 98), 257)]
   \<and> encode (snd (load posix (snd (train init [97, 97] 257))
      ((\<lambda>p. None)([] \<mapsto> Directory, [''tok''] \<mapsto> Directory,
        [''tok'', merges_file] \<mapsto> File [57, 56, 32, 57, 56, 10],
        [''tok'', special_file] \<mapsto> File []))
      [''tok''])) [98, 98] = Inr [256]
   \<and> encode (snd (load posix init (snd (save posix (snd (load posix (snd (train init [97, 97] 257))
      ((\<lambda>p. None)([] \<mapsto> Directory, [''tok''] \<mapsto> Directory,
        [''tok'', merges_file] \<mapsto> File [57, 56, 32, 57, 56, 10],
        [''tok'', special_file] \<mapsto> File []))
      [''tok''])) ((\<lambda>p. None)([] \<mapsto> Directory)) [''out''])) [''out''])) [98, 98] = Inr [257]"
  by (simp add: train_aa load_onto_trained save_collided load_collided encode_def
      utf8_encode_char_def merge_bytepairs_eq)

end
